theory Spec2Isabelle
  imports Main "HOL-Library.Sublist"
begin

section \<open>The template interpreter of BehavioralPattern/Interpreter/Interpreter.go\<close>

text \<open>
  A Go string is a sequence of bytes, here a \<open>string\<close> (a list of 8-bit characters).
  Go's \<open>int\<close> is modelled by \<open>int\<close>: every index the parser computes lies between
  \<open>-1\<close> and the length of the template, so no machine arithmetic wraps.
  A panic of the Go runtime is a value of type \<open>panic\<close>, returned on the left of a sum.
\<close>

datatype panic = SliceBoundsOutOfRange | NilPointerDereference

subsection \<open>The string operations the parser uses\<close>

text \<open>
  \<open>strings.Index(s, substr)\<close>: the byte index of the first occurrence of \<open>substr\<close>
  in \<open>s\<close>, or \<open>-1\<close> when there is none.
\<close>

fun Index :: "string \<Rightarrow> string \<Rightarrow> int" where
  "Index [] substr = (if substr = [] then 0 else - 1)"
| "Index (c # s) substr =
     (if take (length substr) (c # s) = substr then 0
      else (let i = Index s substr in if i = - 1 then - 1 else i + 1))"

text \<open>
  The slice expressions \<open>s[lo:hi]\<close> and \<open>s[lo:]\<close>: Go panics unless
  \<open>0 \<le> lo \<le> hi \<le> len(s)\<close>.
\<close>

definition slice :: "string \<Rightarrow> int \<Rightarrow> int \<Rightarrow> panic + string" where
  "slice s lo hi =
     (if 0 \<le> lo \<and> lo \<le> hi \<and> hi \<le> int (length s)
      then Inr (take (nat (hi - lo)) (drop (nat lo) s))
      else Inl SliceBoundsOutOfRange)"

definition sliceFrom :: "string \<Rightarrow> int \<Rightarrow> panic + string" where
  "sliceFrom s lo = slice s lo (int (length s))"

text \<open>
  \<open>strings.TrimSpace(s)\<close>, of Go's standard library, removes all leading and trailing
  white space, as defined by Unicode, from the UTF-8 text \<open>s\<close>. The white-space runes
  (\<open>unicode.IsSpace\<close>) are the six ASCII ones (tab, line feed, vertical tab, form feed,
  carriage return, space) and nineteen others (U+0085, U+00A0, U+1680, U+2000 to U+200A,
  U+2028, U+2029, U+202F, U+205F, U+3000); \<open>spaceRunes\<close> lists their UTF-8 encodings.
  A byte sequence that is not the encoding of one of them (an invalid byte included, which
  decodes to U+FFFD) is not white space and stops the trimming.
\<close>

definition spaceRunes :: "string list" where
  "spaceRunes =
     [[CHR 0x09], [CHR 0x0A], [CHR 0x0B], [CHR 0x0C], [CHR 0x0D], [CHR 0x20],
      [CHR 0xC2, CHR 0x85], [CHR 0xC2, CHR 0xA0],
      [CHR 0xE1, CHR 0x9A, CHR 0x80],
      [CHR 0xE2, CHR 0x80, CHR 0x80], [CHR 0xE2, CHR 0x80, CHR 0x81],
      [CHR 0xE2, CHR 0x80, CHR 0x82], [CHR 0xE2, CHR 0x80, CHR 0x83],
      [CHR 0xE2, CHR 0x80, CHR 0x84], [CHR 0xE2, CHR 0x80, CHR 0x85],
      [CHR 0xE2, CHR 0x80, CHR 0x86], [CHR 0xE2, CHR 0x80, CHR 0x87],
      [CHR 0xE2, CHR 0x80, CHR 0x88], [CHR 0xE2, CHR 0x80, CHR 0x89],
      [CHR 0xE2, CHR 0x80, CHR 0x8A],
      [CHR 0xE2, CHR 0x80, CHR 0xA8], [CHR 0xE2, CHR 0x80, CHR 0xA9],
      [CHR 0xE2, CHR 0x80, CHR 0xAF],
      [CHR 0xE2, CHR 0x81, CHR 0x9F],
      [CHR 0xE3, CHR 0x80, CHR 0x80]]"

text \<open>
  \<open>stripAny table s\<close> removes from the front of \<open>s\<close> the first entry of \<open>table\<close>
  that \<open>s\<close> starts with, if there is one.
\<close>

definition stripAny :: "string list \<Rightarrow> string \<Rightarrow> string option" where
  "stripAny table s =
     (case find (\<lambda>e. prefix e s) table of
        None \<Rightarrow> None
      | Some e \<Rightarrow> Some (drop (length e) s))"

text \<open>
  \<open>trimFront table n s\<close> removes entries of \<open>table\<close> from the front of \<open>s\<close> as
  long as there is one, in at most \<open>n\<close> steps. Every step removes at least one byte, so
  the length of \<open>s\<close> is bound enough (\<open>trimFront_fuel\<close> below).
\<close>

fun trimFront :: "string list \<Rightarrow> nat \<Rightarrow> string \<Rightarrow> string" where
  "trimFront table 0 s = s"
| "trimFront table (Suc n) s =
     (case stripAny table s of None \<Rightarrow> s | Some r \<Rightarrow> trimFront table n r)"

definition TrimLeftSpace :: "string \<Rightarrow> string" where
  "TrimLeftSpace s = trimFront spaceRunes (length s) s"

text \<open>Trailing white space is read backwards from the end of the string.\<close>

definition TrimRightSpace :: "string \<Rightarrow> string" where
  "TrimRightSpace s = rev (trimFront (map rev spaceRunes) (length s) (rev s))"

definition TrimSpace :: "string \<Rightarrow> string" where
  "TrimSpace s = TrimRightSpace (TrimLeftSpace s)"

subsection \<open>Context, nodes and their Interpreter methods\<close>

text \<open>
  A value of type \<open>any\<close> stored in the context, and its default format
  \<open>fmt.Sprintf("%v", val)\<close>: a string as it is, an integer in base 10, a boolean as
  \<open>true\<close> or \<open>false\<close>, the nil interface as \<open><nil>\<close>. Values of other Go types
  are not modelled.
\<close>

datatype any = AString string | AInt int | ABool bool | ANil

function digits :: "nat \<Rightarrow> string" where
  "digits n =
     (if n < 10 then [''0123456789'' ! n]
      else digits (n div 10) @ [''0123456789'' ! (n mod 10)])"
  by pat_completeness auto
termination
  by (relation "measure id") auto

declare digits.simps [simp del]

definition Itoa :: "int \<Rightarrow> string" where
  "Itoa i = (if i < 0 then CHR ''-'' # digits (nat (- i)) else digits (nat i))"

fun Sprintf_v :: "any \<Rightarrow> string" where
  "Sprintf_v (AString s) = s"
| "Sprintf_v (AInt i) = Itoa i"
| "Sprintf_v (ABool b) = (if b then ''true'' else ''false'')"
| "Sprintf_v ANil = ''<nil>''"

text \<open>
  \<open>Context\<close> holds the map of variable names to values; a Go map that is nil reads as
  the empty map. The methods take a pointer to a Context: \<open>None\<close> is the nil pointer.
\<close>

record Context =
  Data :: "string \<rightharpoonup> any"

datatype Node = TextNode (Content: string) | VarNode (Key: string)

definition TextNode_Interpreter :: "string \<Rightarrow> Context option \<Rightarrow> panic + string" where
  "TextNode_Interpreter content ctx = Inr content"

definition VarNode_Interpreter :: "string \<Rightarrow> Context option \<Rightarrow> panic + string" where
  "VarNode_Interpreter key ctx =
     (case ctx of
        None \<Rightarrow> Inl NilPointerDereference
      | Some c \<Rightarrow>
          (case Data c key of
             None \<Rightarrow> Inr []
           | Some val \<Rightarrow> Inr (Sprintf_v val)))"

text \<open>The call \<open>node.Interpreter(ctx)\<close> through the interface \<open>Node\<close>.\<close>

fun Node_Interpreter :: "Node \<Rightarrow> Context option \<Rightarrow> panic + string" where
  "Node_Interpreter (TextNode content) ctx = TextNode_Interpreter content ctx"
| "Node_Interpreter (VarNode key) ctx = VarNode_Interpreter key ctx"

record Template =
  tree :: "Node list"

subsection \<open>ParseTemplate\<close>

text \<open>
  One pass through the body of the \<open>for\<close> loop, from the cursor \<open>index\<close> and the
  nodes appended so far: it panics (\<open>Inl\<close>), or goes round again with a new cursor and
  tree (\<open>Inr (Inl _)\<close>), or leaves the loop by \<open>break\<close> with the final tree
  (\<open>Inr (Inr _)\<close>).
\<close>

definition loopBody :: "string \<Rightarrow> int \<times> Node list \<Rightarrow> panic + ((int \<times> Node list) + Node list)" where
  "loopBody tmpl st =
     (case st of (index, nodes) \<Rightarrow>
       (case sliceFrom tmpl index of
          Inl p \<Rightarrow> Inl p
        | Inr rest \<Rightarrow>
           (let startIndex = Index rest ''{{'' in
            if startIndex = - 1 then
              (case sliceFrom tmpl index of
                 Inl p \<Rightarrow> Inl p
               | Inr content \<Rightarrow> Inr (Inr (nodes @ [TextNode content])))
            else
              (case slice tmpl index (index + startIndex) of
                 Inl p \<Rightarrow> Inl p
               | Inr content \<Rightarrow>
                  (let nodes1 = nodes @ [TextNode content] in
                   (case sliceFrom tmpl (index + startIndex) of
                      Inl p \<Rightarrow> Inl p
                    | Inr rest2 \<Rightarrow>
                       (let endIndex = Index rest2 ''}}'' in
                        if endIndex = - 1 then Inr (Inr nodes1)
                        else
                          (case slice tmpl (index + startIndex + 2)
                                           (index + startIndex + endIndex) of
                             Inl p \<Rightarrow> Inl p
                           | Inr inner \<Rightarrow>
                              (let key = TrimSpace inner in
                               Inr (Inl (index + startIndex + endIndex + 2,
                                         nodes1 @ [VarNode key])))))))))))"

text \<open>
  The loop has no bound of its own in the source, so it is a partial function: \<open>None\<close>
  stands for a loop that never leaves.
\<close>

partial_function (option) parseLoop :: "string \<Rightarrow> int \<times> Node list \<Rightarrow> (panic + Node list) option" where
  "parseLoop tmpl st =
     (case loopBody tmpl st of
        Inl p \<Rightarrow> Some (Inl p)
      | Inr (Inl st') \<Rightarrow> parseLoop tmpl st'
      | Inr (Inr nodes) \<Rightarrow> Some (Inr nodes))"

declare parseLoop.simps [code]

definition ParseTemplate :: "string \<Rightarrow> (panic + Template) option" where
  "ParseTemplate tmpl =
     (case parseLoop tmpl (0, []) of
        None \<Rightarrow> None
      | Some (Inl p) \<Rightarrow> Some (Inl p)
      | Some (Inr nodes) \<Rightarrow> Some (Inr \<lparr>tree = nodes\<rparr>))"

text \<open>
  The same loop with a bound on the number of passes through its body: \<open>None\<close> when
  the bound is used up before the loop leaves.
\<close>

fun parsePasses :: "nat \<Rightarrow> string \<Rightarrow> int \<times> Node list \<Rightarrow> (panic + Node list) option" where
  "parsePasses 0 tmpl st = None"
| "parsePasses (Suc n) tmpl st =
     (case loopBody tmpl st of
        Inl p \<Rightarrow> Some (Inl p)
      | Inr (Inl st') \<Rightarrow> parsePasses n tmpl st'
      | Inr (Inr nodes) \<Rightarrow> Some (Inr nodes))"

subsection \<open>Template.Interpreter\<close>

text \<open>The \<open>range\<close> loop over the tree, with the string \<open>s\<close> built so far.\<close>

fun renderLoop :: "Node list \<Rightarrow> Context option \<Rightarrow> string \<Rightarrow> panic + string" where
  "renderLoop [] ctx s = Inr s"
| "renderLoop (node # rest) ctx s =
     (case Node_Interpreter node ctx of
        Inl p \<Rightarrow> Inl p
      | Inr out \<Rightarrow> renderLoop rest ctx (s @ out))"

definition Template_Interpreter :: "Template \<Rightarrow> Context option \<Rightarrow> panic + string" where
  "Template_Interpreter t ctx = renderLoop (tree t) ctx []"

text \<open>\<open>ParseTemplate\<close> followed by \<open>Interpreter\<close>, as \<open>main\<close> calls them.\<close>

definition render :: "string \<Rightarrow> Context option \<Rightarrow> (panic + string) option" where
  "render tmpl ctx =
     (case ParseTemplate tmpl of
        None \<Rightarrow> None
      | Some (Inl p) \<Rightarrow> Some (Inl p)
      | Some (Inr t) \<Rightarrow> Some (Template_Interpreter t ctx))"

subsection \<open>Vocabulary of the properties\<close>

text \<open>
  \<open>occursAt tok s i\<close>: the token \<open>tok\<close> stands in \<open>s\<close> at byte \<open>i\<close>;
  \<open>hasToken tok s\<close>: it stands somewhere in \<open>s\<close>.
\<close>

definition occursAt :: "string \<Rightarrow> string \<Rightarrow> nat \<Rightarrow> bool" where
  "occursAt tok s i = (i + length tok \<le> length s \<and> take (length tok) (drop i s) = tok)"

definition hasToken :: "string \<Rightarrow> string \<Rightarrow> bool" where
  "hasToken tok s = list_ex (occursAt tok s) [0..<Suc (length s)]"

text \<open>
  The nodes the loop appends when the template still ahead of the cursor is \<open>s\<close>,
  written without indices into the whole template. \<open>ParseTemplate_scan\<close> below
  proves that \<open>ParseTemplate\<close> returns exactly \<open>scan tmpl\<close>; the properties of the
  parser are proved by induction along \<open>scan\<close>.
\<close>

function scan :: "string \<Rightarrow> Node list" where
  "scan s =
     (let a = Index s ''{{'' in
      if a = - 1 then [TextNode s]
      else
        let b = Index (drop (nat a) s) ''}}'' in
        if b = - 1 then [TextNode (take (nat a) s)]
        else TextNode (take (nat a) s)
           # VarNode (TrimSpace (take (nat b - 2) (drop (nat a + 2) s)))
           # scan (drop (nat a + nat b + 2) s))"
  by pat_completeness auto
termination
proof (relation "measure length")
  show "wf (measure length)" by simp
next
  fix s :: string and a b :: int
  assume "a = Index s ''{{''" and "a \<noteq> - 1"
  then have "s \<noteq> []" by auto
  then show "(drop (nat a + nat b + 2) s, s) \<in> measure length" by simp
qed

declare scan.simps [simp del]

text \<open>The shape of a node list: which nodes are literals, and whether kinds alternate.\<close>

fun isText :: "Node \<Rightarrow> bool" where
  "isText (TextNode content) = True"
| "isText (VarNode key) = False"

fun alternating :: "Node list \<Rightarrow> bool" where
  "alternating (m # n # ns) = (isText m \<noteq> isText n \<and> alternating (n # ns))"
| "alternating ns = True"

text \<open>
  A close token stands after byte \<open>i\<close>; an open token at \<open>i\<close> has none after it; the
  template is well-formed: every open token has a close token later in the template.
\<close>

definition closeAfter :: "string \<Rightarrow> nat \<Rightarrow> bool" where
  "closeAfter s i = list_ex (occursAt ''}}'' s) [Suc i..<length s]"

definition unmatchedOpen :: "string \<Rightarrow> nat \<Rightarrow> bool" where
  "unmatchedOpen s i = (occursAt ''{{'' s i \<and> \<not> closeAfter s i)"

definition wellFormed :: "string \<Rightarrow> bool" where
  "wellFormed s = (\<not> list_ex (unmatchedOpen s) [0..<length s])"

text \<open>
  A reading of a template text: literal text and the interior of a marker, in turn, and
  the literal text after the last marker. \<open>build\<close> writes the template of a reading.
  In a reading no literal holds an open token or ends in an open brace (the marker after
  it starts at its own \<open>{{\<close>), and no interior reaches a close token before its own
  \<open>}}\<close>; the text after the last marker holds no open token.
\<close>

fun build :: "(string \<times> string) list \<Rightarrow> string \<Rightarrow> string" where
  "build [] tail = tail"
| "build ((lit, inner) # ms) tail = lit @ ''{{'' @ inner @ ''}}'' @ build ms tail"

definition pieceOK :: "string \<times> string \<Rightarrow> bool" where
  "pieceOK m = (case m of (lit, inner) \<Rightarrow>
     \<not> hasToken ''{{'' lit \<and> \<not> suffix ''{'' lit \<and> \<not> hasToken ''}}'' (inner @ ''}''))"

definition reading :: "string \<Rightarrow> (string \<times> string) list \<Rightarrow> string \<Rightarrow> bool" where
  "reading tmpl ms tail = (tmpl = build ms tail \<and> list_all pieceOK ms \<and> \<not> hasToken ''{{'' tail)"

text \<open>
  What a reading says the template holds: its nodes (a reference holds the interior of
  its marker without the white space around it), the total length of its literal text,
  the keys it refers to, and the total length of the formatted values a context holds for
  these keys.
\<close>

fun nodesOf :: "(string \<times> string) list \<Rightarrow> Node list" where
  "nodesOf [] = []"
| "nodesOf ((lit, inner) # ms) = TextNode lit # VarNode (TrimSpace inner) # nodesOf ms"

fun literalLength :: "(string \<times> string) list \<Rightarrow> string \<Rightarrow> nat" where
  "literalLength [] tail = length tail"
| "literalLength ((lit, inner) # ms) tail = length lit + literalLength ms tail"

fun referencedKeys :: "(string \<times> string) list \<Rightarrow> string list" where
  "referencedKeys [] = []"
| "referencedKeys ((lit, inner) # ms) = TrimSpace inner # referencedKeys ms"

fun valueLength :: "Context \<Rightarrow> (string \<times> string) list \<Rightarrow> nat" where
  "valueLength c [] = 0"
| "valueLength c ((lit, inner) # ms) =
     length (Sprintf_v (the (Data c (TrimSpace inner)))) + valueLength c ms"

text \<open>What a node contributes to the output when the context pointer is not nil.\<close>

fun nodeText :: "Context \<Rightarrow> Node \<Rightarrow> string" where
  "nodeText c (TextNode content) = content"
| "nodeText c (VarNode key) = (case Data c key of None \<Rightarrow> [] | Some val \<Rightarrow> Sprintf_v val)"

section \<open>The parser and the index-free scan agree\<close>

lemma take_eq_imp_le: "take (length t) xs = t \<Longrightarrow> length t \<le> length xs"
proof -
  assume a: "take (length t) xs = t"
  have "length (take (length t) xs) = length t" by (simp only: a)
  then show ?thesis by simp
qed

lemma Index_ge: "- 1 \<le> Index s t"
  by (induction s) (auto simp: Let_def)

lemma Index_bounds:
  "Index s t \<noteq> - 1 \<Longrightarrow> 0 \<le> Index s t \<and> Index s t + int (length t) \<le> int (length s)"
proof (induction s)
  case Nil
  then show ?case by (auto split: if_splits)
next
  case (Cons c s)
  show ?case
  proof (cases "take (length t) (c # s) = t")
    case True
    then have "length t \<le> length (c # s)"
      by (rule take_eq_imp_le)
    with True show ?thesis by simp
  next
    case False
    with Cons show ?thesis by (auto simp: Let_def split: if_splits)
  qed
qed

lemma Index_occurs: "Index s t \<noteq> - 1 \<Longrightarrow> occursAt t s (nat (Index s t))"
proof (induction s)
  case Nil
  then show ?case by (auto simp: occursAt_def split: if_splits)
next
  case (Cons c s)
  show ?case
  proof (cases "take (length t) (c # s) = t")
    case True
    then have "length t \<le> length (c # s)"
      by (rule take_eq_imp_le)
    with True show ?thesis by (simp add: occursAt_def)
  next
    case False
    with Cons.prems have ne: "Index s t \<noteq> - 1" by (auto simp: Let_def split: if_splits)
    from Index_bounds[OF ne] have ge: "0 \<le> Index s t" by simp
    from False ne have eq: "Index (c # s) t = Index s t + 1" by (simp add: Let_def)
    from ge have "nat (Index s t + 1) = Suc (nat (Index s t))" by simp
    with Cons.IH[OF ne] eq show ?thesis by (simp add: occursAt_def)
  qed
qed

lemma Index_least: "occursAt t s j \<Longrightarrow> Index s t \<noteq> - 1 \<and> Index s t \<le> int j"
proof (induction s arbitrary: j)
  case Nil
  then show ?case by (auto simp: occursAt_def)
next
  case (Cons c s)
  show ?case
  proof (cases "take (length t) (c # s) = t")
    case True
    then show ?thesis by simp
  next
    case False
    with Cons.prems obtain j' where j: "j = Suc j'"
      by (cases j) (auto simp: occursAt_def)
    with Cons.prems have "occursAt t s j'" by (simp add: occursAt_def)
    from Cons.IH[OF this] have ih: "Index s t \<noteq> - 1" "Index s t \<le> int j'" by simp_all
    from Index_bounds[OF ih(1)] have "0 \<le> Index s t" by simp
    with False ih j show ?thesis by (simp add: Let_def)
  qed
qed

lemma Index_none: "Index s t = - 1 \<longleftrightarrow> (\<forall>j. \<not> occursAt t s j)"
  using Index_least Index_occurs by blast

lemma Index_eqI:
  assumes "occursAt t s n" and "\<And>m. m < n \<Longrightarrow> \<not> occursAt t s m"
  shows "Index s t = int n"
proof -
  from Index_least[OF assms(1)] have ne: "Index s t \<noteq> - 1" and le: "Index s t \<le> int n" by simp_all
  from Index_bounds[OF ne] have ge: "0 \<le> Index s t" by simp
  from Index_occurs[OF ne] have "occursAt t s (nat (Index s t))" .
  with assms(2) have "\<not> nat (Index s t) < n" by blast
  with le ge show ?thesis by linarith
qed

lemma hasToken_iff: "hasToken tok s \<longleftrightarrow> (\<exists>j. occursAt tok s j)"
proof
  assume "hasToken tok s"
  then show "\<exists>j. occursAt tok s j" by (auto simp: hasToken_def list_ex_iff)
next
  assume "\<exists>j. occursAt tok s j"
  then obtain j where j: "occursAt tok s j" ..
  then have "j < Suc (length s)" by (simp add: occursAt_def)
  then have "j \<in> set [0..<Suc (length s)]" by (simp del: upt_Suc)
  with j show "hasToken tok s" unfolding hasToken_def list_ex_iff by blast
qed

lemma Index_hasToken: "Index s tok = - 1 \<longleftrightarrow> \<not> hasToken tok s"
  by (simp add: Index_none hasToken_iff)

text \<open>A close token found from the start of an open token lies at offset 2 or more.\<close>

lemma close_offset:
  assumes "take 2 u = ''{{''" and "Index u ''}}'' \<noteq> - 1"
  shows "2 \<le> Index u ''}}''"
proof -
  from assms(1) obtain u' where u: "u = CHR ''{'' # CHR ''{'' # u'"
    by (cases u; cases "tl u") auto
  from assms(2) have "Index u' ''}}'' \<noteq> - 1"
    unfolding u by (auto simp: Let_def split: if_splits)
  from Index_bounds[OF this] have "0 \<le> Index u' ''}}''" by simp
  then show ?thesis unfolding u by (auto simp: Let_def)
qed

lemma sliceFrom_ok:
  "0 \<le> i \<Longrightarrow> i \<le> int (length s) \<Longrightarrow> sliceFrom s i = Inr (drop (nat i) s)"
  by (simp add: sliceFrom_def slice_def)

lemma slice_ok:
  "0 \<le> lo \<Longrightarrow> lo \<le> hi \<Longrightarrow> hi \<le> int (length s) \<Longrightarrow>
   slice s lo hi = Inr (take (nat (hi - lo)) (drop (nat lo) s))"
  by (simp add: slice_def)

text \<open>The three ways through the loop body, for a cursor inside the template.\<close>

lemma loopBody_no_open:
  assumes "0 \<le> i" "i \<le> int (length tmpl)"
    and "Index (drop (nat i) tmpl) ''{{'' = - 1"
  shows "loopBody tmpl (i, ns) = Inr (Inr (ns @ [TextNode (drop (nat i) tmpl)]))"
  using assms by (simp add: loopBody_def sliceFrom_ok)

lemma loopBody_facts:
  assumes i: "0 \<le> i" "i \<le> int (length tmpl)"
    and a: "Index (drop (nat i) tmpl) ''{{'' = a" "a \<noteq> - 1"
  shows "0 \<le> a" "i + a + 2 \<le> int (length tmpl)"
    "drop (nat (i + a)) tmpl = drop (nat a) (drop (nat i) tmpl)"
    "take 2 (drop (nat a) (drop (nat i) tmpl)) = ''{{''"
proof -
  from Index_bounds[of "drop (nat i) tmpl" "''{{''"] a i
  show 1: "0 \<le> a" and 2: "i + a + 2 \<le> int (length tmpl)" by auto
  from i 1 show "drop (nat (i + a)) tmpl = drop (nat a) (drop (nat i) tmpl)"
    by (simp add: nat_add_distrib add.commute)
  from Index_occurs[of "drop (nat i) tmpl" "''{{''"] a
  show "take 2 (drop (nat a) (drop (nat i) tmpl)) = ''{{''"
    by (auto simp: occursAt_def numeral_2_eq_2)
qed

lemma loopBody_no_close:
  assumes i: "0 \<le> i" "i \<le> int (length tmpl)"
    and a: "Index (drop (nat i) tmpl) ''{{'' = a" "a \<noteq> - 1"
    and b: "Index (drop (nat a) (drop (nat i) tmpl)) ''}}'' = - 1"
  shows "loopBody tmpl (i, ns) = Inr (Inr (ns @ [TextNode (take (nat a) (drop (nat i) tmpl))]))"
proof -
  note f = loopBody_facts[OF i a]
  have s1: "sliceFrom tmpl i = Inr (drop (nat i) tmpl)" using i by (rule sliceFrom_ok)
  have s2: "slice tmpl i (i + a) = Inr (take (nat a) (drop (nat i) tmpl))"
    using i f(1,2) by (simp add: slice_ok)
  have s3: "sliceFrom tmpl (i + a) = Inr (drop (nat a) (drop (nat i) tmpl))"
    using i f(1,2) by (simp add: sliceFrom_ok f(3))
  show ?thesis
    using a b by (simp add: loopBody_def s1 s2 s3)
qed

lemma loopBody_marker:
  assumes i: "0 \<le> i" "i \<le> int (length tmpl)"
    and a: "Index (drop (nat i) tmpl) ''{{'' = a" "a \<noteq> - 1"
    and b: "Index (drop (nat a) (drop (nat i) tmpl)) ''}}'' = b" "b \<noteq> - 1"
  shows "loopBody tmpl (i, ns) =
           Inr (Inl (i + a + b + 2,
             ns @ [TextNode (take (nat a) (drop (nat i) tmpl)),
                   VarNode (TrimSpace (take (nat b - 2) (drop (nat a + 2) (drop (nat i) tmpl))))]))"
    and "2 \<le> b" and "i + a + b + 2 \<le> int (length tmpl)"
proof -
  note f = loopBody_facts[OF i a]
  have s1: "sliceFrom tmpl i = Inr (drop (nat i) tmpl)" using i by (rule sliceFrom_ok)
  have s2: "slice tmpl i (i + a) = Inr (take (nat a) (drop (nat i) tmpl))"
    using i f(1,2) by (simp add: slice_ok)
  have s3: "sliceFrom tmpl (i + a) = Inr (drop (nat a) (drop (nat i) tmpl))"
    using i f(1,2) by (simp add: sliceFrom_ok f(3))
  from close_offset[OF f(4)] b show b2: "2 \<le> b" by simp
  from Index_bounds[of "drop (nat a) (drop (nat i) tmpl)" "''}}''"] b i f(1,2)
  show top: "i + a + b + 2 \<le> int (length tmpl)" by auto
  have d: "drop (nat (i + a + 2)) tmpl = drop (nat a + 2) (drop (nat i) tmpl)"
    using i f(1) by (simp add: nat_add_distrib add.commute add.left_commute)
  have n: "nat (i + a + b - (i + a + 2)) = nat b - 2"
    using b2 by linarith
  have s4: "slice tmpl (i + a + 2) (i + a + b) =
              Inr (take (nat b - 2) (drop (nat a + 2) (drop (nat i) tmpl)))"
    using i f(1) b2 top by (simp only: slice_ok d n)
  show "loopBody tmpl (i, ns) =
           Inr (Inl (i + a + b + 2,
             ns @ [TextNode (take (nat a) (drop (nat i) tmpl)),
                   VarNode (TrimSpace (take (nat b - 2) (drop (nat a + 2) (drop (nat i) tmpl))))]))"
    using a b by (simp add: loopBody_def s1 s2 s3 s4 del: drop_drop)
qed

text \<open>The same three ways through \<open>scan\<close>.\<close>

lemma scan_no_open: "Index s ''{{'' = - 1 \<Longrightarrow> scan s = [TextNode s]"
  by (subst scan.simps) simp

lemma scan_no_close:
  "Index s ''{{'' = a \<Longrightarrow> a \<noteq> - 1 \<Longrightarrow> Index (drop (nat a) s) ''}}'' = - 1 \<Longrightarrow>
   scan s = [TextNode (take (nat a) s)]"
  by (subst scan.simps) (simp add: Let_def)

lemma scan_marker:
  "Index s ''{{'' = a \<Longrightarrow> a \<noteq> - 1 \<Longrightarrow> Index (drop (nat a) s) ''}}'' = b \<Longrightarrow> b \<noteq> - 1 \<Longrightarrow>
   scan s = TextNode (take (nat a) s)
          # VarNode (TrimSpace (take (nat b - 2) (drop (nat a + 2) s)))
          # scan (drop (nat a + nat b + 2) s)"
  by (subst scan.simps) (simp add: Let_def del: drop_drop)

text \<open>
  One pass of the loop from a cursor inside the template either leaves with the nodes of
  \<open>scan\<close>, or goes round with a cursor at least four bytes further on; \<open>n\<close> passes are
  enough when fewer than \<open>4 * n\<close> bytes are left.
\<close>

lemma parsePasses_scan:
  "0 \<le> i \<Longrightarrow> i \<le> int (length tmpl) \<Longrightarrow> length tmpl - nat i < 4 * n \<Longrightarrow>
   parsePasses n tmpl (i, ns) = Some (Inr (ns @ scan (drop (nat i) tmpl)))"
proof (induction n arbitrary: i ns)
  case 0
  then show ?case by simp
next
  case (Suc n)
  note i = Suc.prems(1,2)
  define s where "s = drop (nat i) tmpl"
  define a where "a = Index s ''{{''"
  show ?case
  proof (cases "a = - 1")
    case True
    then show ?thesis
      using loopBody_no_open[OF i, of ns] scan_no_open[of s]
      by (simp add: a_def s_def)
  next
    case opn: False
    define b where "b = Index (drop (nat a) s) ''}}''"
    have a: "Index (drop (nat i) tmpl) ''{{'' = a" by (simp add: a_def s_def)
    show ?thesis
    proof (cases "b = - 1")
      case True
      then have b: "Index (drop (nat a) (drop (nat i) tmpl)) ''}}'' = - 1"
        by (simp add: b_def s_def)
      show ?thesis
        using loopBody_no_close[OF i a opn b, of ns] scan_no_close[OF a opn b]
        by simp
    next
      case cls: False
      have b: "Index (drop (nat a) (drop (nat i) tmpl)) ''}}'' = b"
        by (simp add: b_def s_def)
      note m = loopBody_marker[OF i a opn b cls]
      note f = loopBody_facts[OF i a opn]
      let ?i' = "i + a + b + 2"
      have nn: "nat ?i' = nat i + nat a + nat b + 2" "2 \<le> nat b" "nat ?i' \<le> length tmpl"
        using i f(1) m(2,3) by linarith+
      have lt: "length tmpl - nat ?i' < 4 * n"
        using nn Suc.prems(3) by (simp only: mult_Suc_right) linarith
      have i': "0 \<le> ?i'" "?i' \<le> int (length tmpl)"
        using i f(1) m(2,3) by linarith+
      have d: "drop (nat ?i') tmpl = drop (nat a + nat b + 2) (drop (nat i) tmpl)"
      proof -
        have "nat ?i' = (nat a + nat b + 2) + nat i" using i f(1) m(2) by linarith
        then show ?thesis by (simp add: add.commute)
      qed
      show ?thesis
        using Suc.IH[OF i' lt] scan_marker[OF a opn b cls]
        by (simp add: m(1)[of ns] d del: drop_drop)
    qed
  qed
qed

lemma parsePasses_parseLoop:
  "parsePasses n tmpl st = Some r \<Longrightarrow> parseLoop tmpl st = Some r"
proof (induction n arbitrary: st)
  case 0
  then show ?case by simp
next
  case (Suc n)
  then show ?case
    by (subst parseLoop.simps) (auto split: sum.splits)
qed

lemma parseLoop_scan:
  assumes "0 \<le> i" "i \<le> int (length tmpl)"
  shows "parseLoop tmpl (i, ns) = Some (Inr (ns @ scan (drop (nat i) tmpl)))"
proof -
  have "length tmpl - nat i < 4 * Suc (length tmpl)" by simp
  from parsePasses_scan[OF assms this] show ?thesis by (rule parsePasses_parseLoop)
qed

lemma ParseTemplate_scan: "ParseTemplate tmpl = Some (Inr \<lparr>tree = scan tmpl\<rparr>)"
  using parseLoop_scan[of 0 tmpl "[]"] by (simp add: ParseTemplate_def)

text \<open>With a context that is not nil, the render loop appends the text of every node.\<close>

lemma renderLoop_Some:
  "renderLoop ns (Some c) s = Inr (s @ concat (map (nodeText c) ns))"
proof (induction ns arbitrary: s)
  case Nil
  show ?case by simp
next
  case (Cons n ns)
  show ?case
    by (cases n)
       (simp_all add: Cons.IH TextNode_Interpreter_def VarNode_Interpreter_def split: option.splits)
qed

lemma Template_Interpreter_Some:
  "Template_Interpreter t (Some c) = Inr (concat (map (nodeText c) (tree t)))"
  by (simp add: Template_Interpreter_def renderLoop_Some)

lemma render_Some:
  "render tmpl (Some c) = Some (Inr (concat (map (nodeText c) (scan tmpl))))"
  by (simp add: render_def ParseTemplate_scan Template_Interpreter_Some)

text \<open>
  The nodes of \<open>scan\<close> start with a literal, alternate, and end with a literal.
\<close>

lemma scan_shape:
  "scan s \<noteq> [] \<and> isText (hd (scan s)) \<and> alternating (scan s) \<and> isText (last (scan s))"
proof (induction s rule: scan.induct)
  case (1 s)
  define a where "a = Index s ''{{''"
  show ?case
  proof (cases "a = - 1")
    case True
    then show ?thesis by (simp add: scan_no_open a_def)
  next
    case opn: False
    define b where "b = Index (drop (nat a) s) ''}}''"
    show ?thesis
    proof (cases "b = - 1")
      case True
      then show ?thesis using opn scan_no_close[of s a] by (simp add: a_def b_def)
    next
      case cls: False
      let ?r = "scan (drop (nat a + nat b + 2) s)"
      from "1.IH"[OF a_def opn b_def cls]
      have ih: "?r \<noteq> []" "isText (hd ?r)" "alternating ?r" "isText (last ?r)" by simp_all
      from ih(1) obtain n ns where r: "?r = n # ns" by (cases ?r) auto
      have eq: "scan s = TextNode (take (nat a) s)
          # VarNode (TrimSpace (take (nat b - 2) (drop (nat a + 2) s))) # ?r"
        using opn cls scan_marker[of s a b] by (simp add: a_def b_def)
      show ?thesis using ih unfolding eq r by simp
    qed
  qed
qed

section \<open>Well-formed text and the markers after it\<close>

lemma closeAfter_iff: "closeAfter s i \<longleftrightarrow> (\<exists>j>i. occursAt ''}}'' s j)"
proof
  assume "closeAfter s i"
  then show "\<exists>j>i. occursAt ''}}'' s j" by (auto simp: closeAfter_def list_ex_iff Suc_le_eq)
next
  assume "\<exists>j>i. occursAt ''}}'' s j"
  then obtain j where j: "i < j" "occursAt ''}}'' s j" by blast
  then have "j < length s" by (simp add: occursAt_def)
  with j have "j \<in> set [Suc i..<length s]" by simp
  with j(2) show "closeAfter s i" unfolding closeAfter_def list_ex_iff by blast
qed

lemma wellFormed_iff:
  "wellFormed s \<longleftrightarrow> (\<forall>i. occursAt ''{{'' s i \<longrightarrow> (\<exists>j>i. occursAt ''}}'' s j))"
proof -
  have "\<And>i. occursAt ''{{'' s i \<Longrightarrow> i < length s" by (simp add: occursAt_def)
  then show ?thesis
    unfolding wellFormed_def list_ex_iff unmatchedOpen_def closeAfter_iff by auto
qed

lemma occursAt_append:
  "i + length t \<le> length pre \<Longrightarrow> occursAt t (pre @ r) i \<longleftrightarrow> occursAt t pre i"
  by (auto simp: occursAt_def)

lemma occursAt_drop:
  "n \<le> length s \<Longrightarrow> occursAt t (drop n s) i \<longleftrightarrow> occursAt t s (n + i)"
  by (auto simp: occursAt_def add.commute)

lemma Index_append:
  assumes "Index pre t = a" "a \<noteq> - 1"
  shows "Index (pre @ r) t = a"
proof -
  from assms have ne: "Index pre t \<noteq> - 1" by simp
  note b = Index_bounds[OF ne] and o = Index_occurs[OF ne]
  define n where "n = nat (Index pre t)"
  from b have n: "int n = Index pre t" "n + length t \<le> length pre"
    unfolding n_def by linarith+
  have "Index (pre @ r) t = int n"
  proof (rule Index_eqI)
    from o n(2) show "occursAt t (pre @ r) n" by (simp add: occursAt_append n_def)
  next
    fix m assume m: "m < n"
    show "\<not> occursAt t (pre @ r) m"
    proof
      assume "occursAt t (pre @ r) m"
      with m n(2) have "occursAt t pre m" by (simp add: occursAt_append)
      from Index_least[OF this] m n(1) show False by simp
    qed
  qed
  with n(1) assms(1) show ?thesis by simp
qed

lemma wellFormed_drop:
  assumes "wellFormed s" "n \<le> length s"
  shows "wellFormed (drop n s)"
  unfolding wellFormed_iff
proof (intro allI impI)
  fix i assume "occursAt ''{{'' (drop n s) i"
  with assms(2) have "occursAt ''{{'' s (n + i)" by (simp add: occursAt_drop)
  with assms(1) obtain j where j: "n + i < j" "occursAt ''}}'' s j"
    unfolding wellFormed_iff by blast
  then have "occursAt ''}}'' (drop n s) (j - n)" using assms(2) by (simp add: occursAt_drop)
  with j(1) show "\<exists>j>i. occursAt ''}}'' (drop n s) j" by (intro exI[of _ "j - n"]) simp
qed

text \<open>
  After a well-formed text the scan goes on from its last literal: the nodes of
  \<open>pre @ r\<close> are those of \<open>pre\<close> without the last literal, followed by the nodes of that
  literal's text and \<open>r\<close>.
\<close>

lemma scan_append:
  "wellFormed pre \<Longrightarrow>
   scan (pre @ r) = butlast (scan pre) @ scan (Content (last (scan pre)) @ r)"
proof (induction pre rule: scan.induct)
  case (1 s)
  define a where "a = Index s ''{{''"
  show ?case
  proof (cases "a = - 1")
    case True
    then show ?thesis by (simp add: scan_no_open a_def)
  next
    case opn: False
    define b where "b = Index (drop (nat a) s) ''}}''"
    from opn have ne: "Index s ''{{'' \<noteq> - 1" by (simp add: a_def)
    note ba = Index_bounds[OF ne] and oa = Index_occurs[OF ne]
    from ba have a0: "0 \<le> a" by (simp add: a_def)
    from ba have "a + 2 \<le> int (length s)" by (simp add: a_def)
    with a0 have a2: "nat a + 2 \<le> length s" by linarith
    from oa "1.prems" obtain j where j: "nat a < j" "occursAt ''}}'' s j"
      unfolding wellFormed_iff a_def by blast
    then have "occursAt ''}}'' (drop (nat a) s) (j - nat a)"
      using a2 by (simp add: occursAt_drop)
    from Index_least[OF this] have cls: "b \<noteq> - 1" by (simp add: b_def)
    then have neb: "Index (drop (nat a) s) ''}}'' \<noteq> - 1" by (simp add: b_def)
    from Index_bounds[OF neb] have b0: "0 \<le> b" by (simp add: b_def)
    from Index_bounds[OF neb] a2 have "b + 2 \<le> int (length s) - int (nat a)"
      by (simp add: b_def)
    with b0 have top: "nat a + nat b + 2 \<le> length s" by linarith
    let ?rest = "drop (nat a + nat b + 2) s"
    have wf: "wellFormed ?rest" using "1.prems" top by (rule wellFormed_drop)
    note ih = "1.IH"[OF a_def opn b_def cls wf]
    have sa: "Index (s @ r) ''{{'' = a" using a_def[symmetric] opn by (rule Index_append)
    have d1: "drop (nat a) (s @ r) = drop (nat a) s @ r" using a2 by simp
    have sb: "Index (drop (nat a) (s @ r)) ''}}'' = b"
      unfolding d1 using b_def[symmetric] cls by (rule Index_append)
    have k: "take (nat b - 2) (drop (nat a + 2) (s @ r)) = take (nat b - 2) (drop (nat a + 2) s)"
      using top by simp
    have t: "take (nat a) (s @ r) = take (nat a) s" using a2 by simp
    have d2: "drop (nat a + nat b + 2) (s @ r) = ?rest @ r" using top by simp
    have e1: "scan (s @ r) = TextNode (take (nat a) s)
          # VarNode (TrimSpace (take (nat b - 2) (drop (nat a + 2) s))) # scan (?rest @ r)"
      using scan_marker[OF sa opn sb cls] by (simp only: k t d2)
    have e2: "scan s = TextNode (take (nat a) s)
          # VarNode (TrimSpace (take (nat b - 2) (drop (nat a + 2) s))) # scan ?rest"
      using scan_marker[OF a_def[symmetric] opn b_def[symmetric] cls] .
    have nz: "scan ?rest \<noteq> []" using scan_shape by blast
    show ?thesis unfolding e1 e2 using ih nz by simp
  qed
qed


lemma wellFormed_close:
  assumes "wellFormed s" "Index s ''{{'' = a" "a \<noteq> - 1"
  shows "Index (drop (nat a) s) ''}}'' \<noteq> - 1"
proof -
  from assms have ne: "Index s ''{{'' \<noteq> - 1" by simp
  note ba = Index_bounds[OF ne] and oa = Index_occurs[OF ne]
  from ba assms(2) have "nat a \<le> length s" by linarith
  moreover from oa assms(1,2) obtain j where j: "nat a < j" "occursAt ''}}'' s j"
    unfolding wellFormed_iff by blast
  ultimately have "occursAt ''}}'' (drop (nat a) s) (j - nat a)"
    by (simp add: occursAt_drop)
  from Index_least[OF this] show ?thesis by simp
qed

lemma marker_bounds:
  assumes "Index s ''{{'' = a" "a \<noteq> - 1" "Index (drop (nat a) s) ''}}'' = b" "b \<noteq> - 1"
  shows "0 \<le> a" "0 \<le> b" "nat a + nat b + 2 \<le> length s"
proof -
  from assms have ne: "Index s ''{{'' \<noteq> - 1" and neb: "Index (drop (nat a) s) ''}}'' \<noteq> - 1"
    by simp_all
  from Index_bounds[OF ne] assms(1) show a0: "0 \<le> a" by simp
  from Index_bounds[OF ne] assms(1) have "a + 2 \<le> int (length s)" by simp
  with a0 have a2: "nat a + 2 \<le> length s" by linarith
  from Index_bounds[OF neb] assms(3) show b0: "0 \<le> b" by simp
  from Index_bounds[OF neb] a2 assms(3) have "b + 2 \<le> int (length s) - int (nat a)"
    by simp
  with b0 show "nat a + nat b + 2 \<le> length s" by linarith
qed

text \<open>The last literal of a well-formed text is its tail after the last marker.\<close>

lemma last_literal:
  "wellFormed s \<Longrightarrow>
   \<exists>n\<le>length s. last (scan s) = TextNode (drop n s) \<and> \<not> hasToken ''{{'' (drop n s)"
proof (induction s rule: scan.induct)
  case (1 s)
  define a where "a = Index s ''{{''"
  show ?case
  proof (cases "a = - 1")
    case True
    then have "last (scan s) = TextNode (drop 0 s)" "\<not> hasToken ''{{'' (drop 0 s)"
      by (simp_all add: scan_no_open a_def Index_hasToken)
    then show ?thesis by blast
  next
    case opn: False
    define b where "b = Index (drop (nat a) s) ''}}''"
    have cls: "b \<noteq> - 1"
      using wellFormed_close[OF "1.prems" a_def[symmetric] opn] by (simp add: b_def)
    note mb = marker_bounds[OF a_def[symmetric] opn b_def[symmetric] cls]
    let ?k = "nat a + nat b + 2"
    have wf: "wellFormed (drop ?k s)" using "1.prems" mb(3) by (rule wellFormed_drop)
    from "1.IH"[OF a_def opn b_def cls wf]
    obtain n where n: "n \<le> length (drop ?k s)" "last (scan (drop ?k s)) = TextNode (drop n (drop ?k s))"
      "\<not> hasToken ''{{'' (drop n (drop ?k s))" by blast
    have nz: "scan (drop ?k s) \<noteq> []" using scan_shape by blast
    have "last (scan s) = last (scan (drop ?k s))"
      using scan_marker[OF a_def[symmetric] opn b_def[symmetric] cls] nz by simp
    with n have "last (scan s) = TextNode (drop (n + ?k) s)" "\<not> hasToken ''{{'' (drop (n + ?k) s)"
      by simp_all
    moreover from n(1) mb(3) have "n + ?k \<le> length s" by simp
    ultimately show ?thesis by blast
  qed
qed

lemma occursAt_nth: "occursAt (x # t) s m \<Longrightarrow> s ! m = x"
proof -
  assume o: "occursAt (x # t) s m"
  then have "m < length s" by (simp add: occursAt_def)
  then have "drop m s = s ! m # drop (Suc m) s" by (simp add: Cons_nth_drop_Suc)
  with o show ?thesis by (simp add: occursAt_def)
qed

lemma open_after_literal:
  assumes "\<not> hasToken ''{{'' c" "\<not> suffix ''{'' c"
  shows "Index (c @ ''{{'' @ u) ''{{'' = int (length c)"
proof (rule Index_eqI)
  show "occursAt ''{{'' (c @ ''{{'' @ u) (length c)" by (simp add: occursAt_def)
next
  fix m assume m: "m < length c"
  show "\<not> occursAt ''{{'' (c @ ''{{'' @ u) m"
  proof
    assume o: "occursAt ''{{'' (c @ ''{{'' @ u) m"
    show False
    proof (cases "m + 2 \<le> length c")
      case True
      with o have "occursAt ''{{'' c m" by (simp add: occursAt_append)
      with assms(1) show False by (auto simp: hasToken_iff)
    next
      case False
      with m have ml: "m = length c - 1" "c \<noteq> []" by auto
      from o have "(c @ ''{{'' @ u) ! m = CHR ''{''" by (rule occursAt_nth)
      with ml have "last c = CHR ''{''" by (simp add: nth_append last_conv_nth)
      with ml(2) have "suffix ''{'' c"
        by (metis append_butlast_last_id suffixI)
      with assms(2) show False by simp
    qed
  qed
qed


lemma close_after_inner:
  assumes "\<not> hasToken ''}}'' (inner @ ''}'')"
  shows "Index (''{{'' @ inner @ ''}}'' @ post) ''}}'' = int (length inner) + 2"
proof -
  have "Index (inner @ ''}}'' @ post) ''}}'' = int (length inner)"
  proof (rule Index_eqI)
    show "occursAt ''}}'' (inner @ ''}}'' @ post) (length inner)" by (simp add: occursAt_def)
  next
    fix m assume m: "m < length inner"
    show "\<not> occursAt ''}}'' (inner @ ''}}'' @ post) m"
    proof
      assume "occursAt ''}}'' (inner @ ''}}'' @ post) m"
      then have "occursAt ''}}'' ((inner @ ''}'') @ (''}'' @ post)) m" by simp
      with m have "occursAt ''}}'' (inner @ ''}'') m"
        by (subst (asm) occursAt_append) simp_all
      with assms show False by (auto simp: hasToken_iff)
    qed
  qed
  then show ?thesis by (simp add: Let_def)
qed

lemma scan_literal_marker:
  assumes c: "\<not> hasToken ''{{'' c" "\<not> suffix ''{'' c"
    and cf: "\<not> hasToken ''}}'' (inner @ ''}'')"
  shows "scan (c @ ''{{'' @ inner @ ''}}'' @ post) = TextNode c # VarNode (TrimSpace inner) # scan post"
proof -
  let ?s = "c @ ''{{'' @ inner @ ''}}'' @ post"
  have a: "Index ?s ''{{'' = int (length c)" using c by (rule open_after_literal)
  have b: "Index (drop (nat (int (length c))) ?s) ''}}'' = int (length inner) + 2"
    using close_after_inner[OF cf, of post] by simp
  have n: "nat (int (length inner) + 2) = length inner + 2" by simp
  have t: "take (length c) ?s = c" by simp
  have k: "take (length inner + 2 - 2) (drop (length c + 2) ?s) = inner"
  proof -
    have "?s = (c @ ''{{'') @ inner @ ''}}'' @ post" by simp
    moreover have "length (c @ ''{{'') = length c + 2" by simp
    ultimately have "drop (length c + 2) ?s = inner @ ''}}'' @ post"
      by (metis append_eq_conv_conj)
    then show ?thesis by simp
  qed
  have d: "drop (length c + (length inner + 2) + 2) ?s = post"
  proof -
    have "?s = (c @ ''{{'' @ inner @ ''}}'') @ post" by simp
    moreover have "length (c @ ''{{'' @ inner @ ''}}'') = length c + (length inner + 2) + 2" by simp
    ultimately show ?thesis by (metis append_eq_conv_conj)
  qed
  from scan_marker[OF a _ b] have
    "scan ?s = TextNode (take (nat (int (length c))) ?s)
       # VarNode (TrimSpace (take (nat (int (length inner) + 2) - 2) (drop (nat (int (length c)) + 2) ?s)))
       # scan (drop (nat (int (length c)) + nat (int (length inner) + 2) + 2) ?s)"
    by simp
  then show ?thesis by (simp only: n nat_int t k d)
qed

lemma scan_literal_unterminated:
  assumes c: "\<not> hasToken ''{{'' c" "\<not> suffix ''{'' c"
    and u: "\<not> hasToken ''}}'' (''{{'' @ u)"
  shows "scan (c @ ''{{'' @ u) = [TextNode c]"
proof -
  have a: "Index (c @ ''{{'' @ u) ''{{'' = int (length c)" using c by (rule open_after_literal)
  have b: "Index (drop (nat (int (length c))) (c @ ''{{'' @ u)) ''}}'' = - 1"
    using u by (simp add: Index_hasToken del: Index.simps)
  from scan_no_close[OF a _ b] show ?thesis by simp
qed

lemma last_literal_wf:
  assumes "wellFormed pre" "\<not> suffix ''{'' pre"
  obtains c where "last (scan pre) = TextNode c" "\<not> hasToken ''{{'' c" "\<not> suffix ''{'' c"
    "suffix c pre"
proof -
  from last_literal[OF assms(1)] obtain n where
    n: "last (scan pre) = TextNode (drop n pre)" "\<not> hasToken ''{{'' (drop n pre)" by blast
  have s: "suffix (drop n pre) pre" by (rule suffix_drop)
  with assms(2) have "\<not> suffix ''{'' (drop n pre)"
    using suffix_order.trans by blast
  with n s that show thesis by blast
qed

lemma scan_marker_append:
  assumes "wellFormed pre" "\<not> suffix ''{'' pre" "\<not> hasToken ''}}'' (inner @ ''}'')"
  shows "scan (pre @ ''{{'' @ inner @ ''}}'' @ post) = scan pre @ VarNode (TrimSpace inner) # scan post"
proof -
  from last_literal_wf[OF assms(1,2)] obtain c where
    c: "last (scan pre) = TextNode c" "\<not> hasToken ''{{'' c" "\<not> suffix ''{'' c" by blast
  have nz: "scan pre \<noteq> []" using scan_shape by blast
  have "scan (pre @ ''{{'' @ inner @ ''}}'' @ post)
        = butlast (scan pre) @ scan (c @ ''{{'' @ inner @ ''}}'' @ post)"
    using scan_append[OF assms(1)] c(1) by simp
  also have "\<dots> = (butlast (scan pre) @ [last (scan pre)]) @ VarNode (TrimSpace inner) # scan post"
    using scan_literal_marker[OF c(2,3) assms(3)] c(1) by simp
  finally show ?thesis using nz by simp
qed

lemma scan_unterminated:
  assumes "wellFormed pre" "\<not> suffix ''{'' pre" "\<not> hasToken ''}}'' (''{{'' @ u)"
  shows "scan (pre @ ''{{'' @ u) = scan pre"
proof -
  from last_literal_wf[OF assms(1,2)] obtain c where
    c: "last (scan pre) = TextNode c" "\<not> hasToken ''{{'' c" "\<not> suffix ''{'' c" by blast
  have nz: "scan pre \<noteq> []" using scan_shape by blast
  have "scan (pre @ ''{{'' @ u) = butlast (scan pre) @ scan (c @ ''{{'' @ u)"
    using scan_append[OF assms(1)] c(1) by simp
  also have "\<dots> = butlast (scan pre) @ [last (scan pre)]"
    using scan_literal_unterminated[OF c(2,3) assms(3)] c(1) by simp
  finally show ?thesis using nz by simp
qed


lemma occursAt2:
  "occursAt [x, y] s m \<longleftrightarrow> Suc m < length s \<and> s ! m = x \<and> s ! Suc m = y"
proof (cases "Suc m < length s")
  case True
  then have "drop m s = s ! m # s ! Suc m # drop (Suc (Suc m)) s"
    by (simp add: Cons_nth_drop_Suc Suc_lessD)
  with True show ?thesis by (auto simp: occursAt_def)
next
  case False
  then show ?thesis by (auto simp: occursAt_def)
qed

text \<open>
  The first open token with no close token after it splits the template: the text before
  it is well-formed and does not end in a brace that would make an earlier open token,
  and the text from it on holds no close token.
\<close>

lemma first_unmatched:
  assumes u: "unmatchedOpen tmpl p" and first: "\<And>q. q < p \<Longrightarrow> \<not> unmatchedOpen tmpl q"
  shows "wellFormed (take p tmpl)" "\<not> suffix ''{'' (take p tmpl)"
    "drop p tmpl = ''{{'' @ drop (p + 2) tmpl" "\<not> hasToken ''}}'' (''{{'' @ drop (p + 2) tmpl)"
proof -
  from u have o: "Suc p < length tmpl" "tmpl ! p = CHR ''{''" "tmpl ! Suc p = CHR ''{''"
    and nc: "\<And>j. p < j \<Longrightarrow> \<not> occursAt ''}}'' tmpl j"
    by (auto simp: unmatchedOpen_def occursAt2 closeAfter_iff)
  have nc': "\<And>j. p \<le> j \<Longrightarrow> \<not> occursAt ''}}'' tmpl j"
  proof -
    fix j assume "p \<le> j"
    show "\<not> occursAt ''}}'' tmpl j"
    proof (cases "j = p")
      case True
      with o(2) show ?thesis by (simp add: occursAt2)
    next
      case False
      with \<open>p \<le> j\<close> have "p < j" by simp
      then show ?thesis by (rule nc)
    qed
  qed
  have earlier: "\<exists>j>q. Suc (Suc j) \<le> p \<and> occursAt ''}}'' tmpl j"
    if q: "q < p" "occursAt ''{{'' tmpl q" for q
  proof -
    from first[OF q(1)] q(2) obtain j where j: "q < j" "occursAt ''}}'' tmpl j"
      by (auto simp: unmatchedOpen_def closeAfter_iff)
    with nc'[of j] have "j < p" by (cases "p \<le> j") auto
    moreover from j(2) o(2) have "Suc j \<noteq> p" by (auto simp: occursAt2)
    ultimately have "Suc (Suc j) \<le> p" by simp
    with j show ?thesis by blast
  qed
  show "wellFormed (take p tmpl)"
    unfolding wellFormed_iff
  proof (intro allI impI)
    fix q assume "occursAt ''{{'' (take p tmpl) q"
    then have q: "Suc q < p" "occursAt ''{{'' tmpl q"
      using o(1) by (auto simp: occursAt2)
    from earlier[OF _ q(2)] q(1) obtain j where j: "q < j" "Suc (Suc j) \<le> p" "occursAt ''}}'' tmpl j"
      by auto
    then have "occursAt ''}}'' (take p tmpl) j" using o(1) by (auto simp: occursAt2)
    with j(1) show "\<exists>j>q. occursAt ''}}'' (take p tmpl) j" by blast
  qed
  show "\<not> suffix ''{'' (take p tmpl)"
  proof
    assume "suffix ''{'' (take p tmpl)"
    then obtain w where w: "take p tmpl = w @ ''{''" by (auto simp: suffix_def)
    then have "length (take p tmpl) = Suc (length w)" by simp
    with o(1) have p: "p = Suc (length w)" by simp
    from w have "take p tmpl ! length w = CHR ''{''" by simp
    with p have "tmpl ! length w = CHR ''{''" by simp
    with p o have "occursAt ''{{'' tmpl (length w)" by (simp add: occursAt2)
    from earlier[OF _ this] p show False by auto
  qed
  show d: "drop p tmpl = ''{{'' @ drop (p + 2) tmpl"
  proof -
    from o(1) have "drop p tmpl = tmpl ! p # tmpl ! Suc p # drop (Suc (Suc p)) tmpl"
      by (simp add: Cons_nth_drop_Suc Suc_lessD)
    with o(2,3) show ?thesis by simp
  qed
  show "\<not> hasToken ''}}'' (''{{'' @ drop (p + 2) tmpl)"
  proof
    assume "hasToken ''}}'' (''{{'' @ drop (p + 2) tmpl)"
    then obtain j where "occursAt ''}}'' (drop p tmpl) j" by (auto simp: hasToken_iff d)
    with o(1) have "occursAt ''}}'' tmpl (p + j)" by (simp add: occursAt_drop)
    with nc'[of "p + j"] show False by simp
  qed
qed

lemma TrimSpace_Nil: "TrimSpace [] = []"
  by (simp add: TrimSpace_def TrimLeftSpace_def TrimRightSpace_def)

text \<open>The scan follows a reading: it gives the nodes of the reading.\<close>

lemma scan_build:
  "list_all pieceOK ms \<Longrightarrow> \<not> hasToken ''{{'' tail \<Longrightarrow>
   scan (build ms tail) = nodesOf ms @ [TextNode tail]"
proof (induction ms)
  case Nil
  then show ?case by (simp add: scan_no_open Index_hasToken)
next
  case (Cons m ms)
  obtain lit inner where m: "m = (lit, inner)" by (cases m)
  from Cons.prems have pm: "pieceOK m" and rest: "list_all pieceOK ms" by simp_all
  from pm m have ok: "\<not> hasToken ''{{'' lit" "\<not> suffix ''{'' lit"
    "\<not> hasToken ''}}'' (inner @ ''}'')"
    by (simp_all add: pieceOK_def)
  have "scan (lit @ ''{{'' @ inner @ ''}}'' @ build ms tail)
        = TextNode lit # VarNode (TrimSpace inner) # scan (build ms tail)"
    using ok by (rule scan_literal_marker)
  with Cons.IH[OF rest Cons.prems(2)] m show ?case by simp
qed

lemma suffix_build: "suffix tail (build ms tail)"
proof (induction ms)
  case Nil
  show ?case by simp
next
  case (Cons m ms)
  obtain lit inner where m: "m = (lit, inner)" by (cases m)
  have "build (m # ms) tail = (lit @ ''{{'' @ inner @ ''}}'') @ build ms tail"
    by (simp add: m)
  then have "suffix (build ms tail) (build (m # ms) tail)" by (metis suffixI)
  with Cons.IH show ?case using suffix_order.trans by blast
qed

lemma occursAt_split: "occursAt tok s n \<Longrightarrow> drop n s = tok @ drop (n + length tok) s"
proof -
  assume o: "occursAt tok s n"
  have "drop n s = take (length tok) (drop n s) @ drop (length tok) (drop n s)"
    by (simp only: append_take_drop_id)
  also have "drop (length tok) (drop n s) = drop (n + length tok) s"
    by (simp add: add.commute)
  finally show ?thesis using o by (simp add: occursAt_def)
qed

text \<open>Every well-formed template has a reading, which the scan follows.\<close>

lemma wellFormed_reading: "wellFormed tmpl \<Longrightarrow> \<exists>ms tail. reading tmpl ms tail"
proof (induction tmpl rule: scan.induct)
  case (1 s)
  define a where "a = Index s ''{{''"
  show ?case
  proof (cases "a = - 1")
    case True
    then have "reading s [] s" by (simp add: reading_def a_def Index_hasToken)
    then show ?thesis by blast
  next
    case opn: False
    define b where "b = Index (drop (nat a) s) ''}}''"
    have cls: "b \<noteq> - 1"
      using wellFormed_close[OF "1.prems" a_def[symmetric] opn] by (simp add: b_def)
    note mb = marker_bounds[OF a_def[symmetric] opn b_def[symmetric] cls]
    have b2: "2 \<le> b"
    proof -
      from opn have "Index s ''{{'' \<noteq> - 1" by (simp add: a_def)
      from Index_occurs[OF this] have "take 2 (drop (nat a) s) = ''{{''"
        by (auto simp: occursAt_def a_def numeral_2_eq_2)
      from close_offset[OF this] cls show ?thesis by (simp add: b_def)
    qed
    let ?k = "nat a + nat b + 2"
    define lit where "lit = take (nat a) s"
    define inner where "inner = take (nat b - 2) (drop (nat a + 2) s)"
    have wf: "wellFormed (drop ?k s)" using "1.prems" mb(3) by (rule wellFormed_drop)
    from "1.IH"[OF a_def opn b_def cls wf] obtain ms tail where
      r: "reading (drop ?k s) ms tail" by blast
    have oa: "occursAt ''{{'' s (nat a)"
      using Index_occurs[of s "''{{''"] opn by (simp add: a_def)
    have ob: "occursAt ''}}'' (drop (nat a) s) (nat b)"
      using Index_occurs[of "drop (nat a) s" "''}}''"] cls by (simp add: b_def)
    have ob': "occursAt ''}}'' s (nat a + nat b)"
      using ob mb(3) by (simp add: occursAt_drop)
    have nb: "nat b = Suc (Suc (nat b - 2))" using b2 by linarith
    have da: "drop (nat a) s = ''{{'' @ inner @ ''}}'' @ drop ?k s"
    proof -
      have 2: "drop (nat a) s = ''{{'' @ drop (nat a + 2) s"
        using occursAt_split[OF oa] by simp
      have 3: "drop (nat a + 2) s = inner @ drop (nat a + nat b) s"
      proof -
        have "drop (nat a + 2) s = take (nat b - 2) (drop (nat a + 2) s) @ drop (nat b - 2) (drop (nat a + 2) s)"
          by (simp only: append_take_drop_id)
        moreover have "nat b - 2 + (nat a + 2) = nat a + nat b" using b2 by linarith
        then have "drop (nat b - 2) (drop (nat a + 2) s) = drop (nat a + nat b) s"
          by (simp only: drop_drop)
        ultimately show ?thesis by (simp only: inner_def)
      qed
      have 4: "drop (nat a + nat b) s = ''}}'' @ drop ?k s"
        using occursAt_split[OF ob'] by simp
      from 2 3 4 show ?thesis by simp
    qed
    have split: "s = lit @ ''{{'' @ inner @ ''}}'' @ drop ?k s"
    proof -
      have "s = take (nat a) s @ drop (nat a) s" by simp
      then show ?thesis by (simp only: da lit_def)
    qed
    have l1: "\<not> hasToken ''{{'' lit"
    proof
      assume "hasToken ''{{'' lit"
      then obtain m where m: "occursAt ''{{'' lit m" by (auto simp: hasToken_iff)
      then have "Suc m < nat a" by (auto simp: occursAt2 lit_def)
      moreover from m have "occursAt ''{{'' s m" by (auto simp: occursAt2 lit_def)
      ultimately show False using Index_least[of "''{{''" s m] mb(1) by (simp add: a_def)
    qed
    have l2: "\<not> suffix ''{'' lit"
    proof
      assume "suffix ''{'' lit"
      then obtain w where w: "lit = w @ ''{''" by (auto simp: suffix_def)
      from oa have la: "Suc (nat a) < length s" "s ! nat a = CHR ''{''" by (auto simp: occursAt2)
      then have "length lit = nat a" by (simp add: lit_def)
      with w have na: "nat a = Suc (length w)" by simp
      from w have "lit ! length w = CHR ''{''" by simp
      with na have "s ! length w = CHR ''{''" by (simp add: lit_def)
      with na la have "occursAt ''{{'' s (length w)" by (simp add: occursAt2)
      from Index_least[OF this] na mb(1) show False by (simp add: a_def)
    qed
    have l3: "\<not> hasToken ''}}'' (inner @ ''}'')"
    proof
      assume "hasToken ''}}'' (inner @ ''}'')"
      then obtain m where m: "occursAt ''}}'' (inner @ ''}'') m" by (auto simp: hasToken_iff)
      have li: "length inner = nat b - 2" using mb(3) by (simp add: inner_def)
      from m li have mlt: "Suc m \<le> nat b - 2" by (simp add: occursAt_def)
      have "drop (nat a) s = ''{{'' @ (inner @ ''}'') @ (''}'' @ drop ?k s)"
        using da by simp
      moreover have "occursAt ''}}'' ((inner @ ''}'') @ (''}'' @ drop ?k s)) m"
      proof -
        from m have "m + length ''}}'' \<le> length (inner @ ''}'')" by (simp add: occursAt_def)
        from occursAt_append[OF this] m show ?thesis by blast
      qed
      then have "occursAt ''}}'' (drop 2 (''{{'' @ (inner @ ''}'') @ (''}'' @ drop ?k s))) m"
        by simp
      then have "occursAt ''}}'' (''{{'' @ (inner @ ''}'') @ (''}'' @ drop ?k s)) (2 + m)"
        by (subst (asm) occursAt_drop) simp_all
      ultimately have "occursAt ''}}'' (drop (nat a) s) (m + 2)"
        by (simp add: add.commute)
      from Index_least[OF this] mlt b2 mb(2) show False by (simp add: b_def)
    qed
    from r have "reading s ((lit, inner) # ms) tail"
      using split l1 l2 l3 by (simp add: reading_def pieceOK_def)
    then show ?thesis by blast
  qed
qed


lemma length_nodesOf:
  "set (referencedKeys ms) \<subseteq> dom (Data c) \<Longrightarrow>
   length (concat (map (nodeText c) (nodesOf ms @ [TextNode tail])))
     = literalLength ms tail + valueLength c ms"
proof (induction ms)
  case Nil
  show ?case by simp
next
  case (Cons m ms)
  obtain lit inner where m: "m = (lit, inner)" by (cases m)
  from Cons.prems m have "TrimSpace inner \<in> dom (Data c)"
    and "set (referencedKeys ms) \<subseteq> dom (Data c)" by simp_all
  with Cons.IH m show ?case by auto
qed

section \<open>Trimming white space\<close>

text \<open>
  Trimming with a table whose entries are not empty and of which none is a prefix of
  another: an entry at the front is removed whole, and the bound on the number of steps
  does not matter once it is at least the length of the string.
\<close>

lemma stripAny_SomeD:
  "stripAny T s = Some r \<Longrightarrow> \<exists>e\<in>set T. prefix e s \<and> r = drop (length e) s"
proof -
  assume "stripAny T s = Some r"
  then obtain e where e: "find (\<lambda>e. prefix e s) T = Some e" "r = drop (length e) s"
    by (auto simp: stripAny_def split: option.splits)
  from e(1) obtain i where "i < length T" "prefix (T ! i) s" "e = T ! i"
    unfolding find_Some_iff by blast
  then have "e \<in> set T" "prefix e s" by simp_all
  with e(2) show ?thesis by blast
qed

lemma stripAny_None_iff: "stripAny T s = None \<longleftrightarrow> (\<forall>e\<in>set T. \<not> prefix e s)"
proof -
  have "stripAny T s = None \<longleftrightarrow> find (\<lambda>e. prefix e s) T = None"
    by (simp add: stripAny_def split: option.splits)
  then show ?thesis by (auto simp: find_None_iff)
qed

lemma stripAny_shorter:
  assumes "[] \<notin> set T" "stripAny T s = Some r"
  shows "length r < length s"
proof -
  from stripAny_SomeD[OF assms(2)] obtain e where e: "e \<in> set T" "prefix e s" "r = drop (length e) s"
    by blast
  with assms(1) have "e \<noteq> []" by auto
  moreover from e(2) have "length e \<le> length s" by (rule prefix_length_le)
  ultimately show ?thesis using e(3) by (cases e) auto
qed

lemma stripAny_hit:
  assumes pf: "\<And>e e'. e \<in> set T \<Longrightarrow> e' \<in> set T \<Longrightarrow> prefix e e' \<Longrightarrow> e = e'"
    and e: "e \<in> set T"
  shows "stripAny T (e @ x) = Some x"
proof -
  have "prefix e (e @ x)" by simp
  with e have "stripAny T (e @ x) \<noteq> None" unfolding stripAny_None_iff by blast
  then obtain r where r: "stripAny T (e @ x) = Some r" by blast
  from stripAny_SomeD[OF r] obtain e' where
    e': "e' \<in> set T" "prefix e' (e @ x)" "r = drop (length e') (e @ x)" by blast
  have "prefix e (e @ x)" by simp
  with e'(2) have "prefix e e' \<or> prefix e' e" using prefix_same_cases by blast
  with pf e e'(1) have "e' = e" by blast
  with e'(3) r show ?thesis by simp
qed

lemma trimFront_fuel:
  assumes "[] \<notin> set T"
  shows "length s \<le> n \<Longrightarrow> length s \<le> m \<Longrightarrow> trimFront T n s = trimFront T m s"
proof (induction n arbitrary: m s)
  case 0
  then have s: "s = []" by simp
  from assms have "stripAny T [] = None" by (auto simp: stripAny_None_iff)
  with s show ?case by (cases m) simp_all
next
  case (Suc n)
  show ?case
  proof (cases m)
    case 0
    with Suc.prems have s: "s = []" by simp
    from assms have "stripAny T [] = None" by (auto simp: stripAny_None_iff)
    with s 0 show ?thesis by simp
  next
    case m: (Suc m')
    show ?thesis
    proof (cases "stripAny T s")
      case None
      with m show ?thesis by simp
    next
      case (Some r)
      from stripAny_shorter[OF assms Some] Suc.prems m
      have "length r \<le> n" "length r \<le> m'" by simp_all
      from Suc.IH[OF this] Some m show ?thesis by simp
    qed
  qed
qed

lemma trimFront_hit:
  assumes ne: "[] \<notin> set T"
    and pf: "\<And>e e'. e \<in> set T \<Longrightarrow> e' \<in> set T \<Longrightarrow> prefix e e' \<Longrightarrow> e = e'"
    and e: "e \<in> set T"
  shows "trimFront T (length (e @ x)) (e @ x) = trimFront T (length x) x"
proof -
  from ne e have "e \<noteq> []" by auto
  then obtain k where k: "length (e @ x) = Suc k" "length x \<le> k" by (cases e) auto
  have "trimFront T (length (e @ x)) (e @ x) = trimFront T k x"
    unfolding k(1) by (simp add: stripAny_hit[OF pf e])
  also have "\<dots> = trimFront T (length x) x"
    using trimFront_fuel[OF ne k(2)] by simp
  finally show ?thesis .
qed

lemma trimFront_concat:
  assumes ne: "[] \<notin> set T"
    and pf: "\<And>e e'. e \<in> set T \<Longrightarrow> e' \<in> set T \<Longrightarrow> prefix e e' \<Longrightarrow> e = e'"
  shows "set rs \<subseteq> set T \<Longrightarrow>
    trimFront T (length (concat rs @ x)) (concat rs @ x) = trimFront T (length x) x"
proof (induction rs)
  case Nil
  show ?case by simp
next
  case (Cons e rs)
  then have e: "e \<in> set T" and rs: "set rs \<subseteq> set T" by simp_all
  have "trimFront T (length (concat (e # rs) @ x)) (concat (e # rs) @ x)
        = trimFront T (length (e @ (concat rs @ x))) (e @ (concat rs @ x))" by simp
  also have "\<dots> = trimFront T (length (concat rs @ x)) (concat rs @ x)"
    using ne pf e by (rule trimFront_hit)
  also have "\<dots> = trimFront T (length x) x" using rs by (rule Cons.IH)
  finally show ?case .
qed

lemma trimFront_decomp:
  assumes ne: "[] \<notin> set T"
  shows "length s \<le> n \<Longrightarrow>
    \<exists>rs. set rs \<subseteq> set T \<and> s = concat rs @ trimFront T n s \<and> stripAny T (trimFront T n s) = None"
proof (induction n arbitrary: s)
  case 0
  then have "s = []" by simp
  moreover from ne have "stripAny T [] = None" by (auto simp: stripAny_None_iff)
  ultimately show ?case by (intro exI[of _ "[]"]) simp
next
  case (Suc n)
  show ?case
  proof (cases "stripAny T s")
    case None
    then show ?thesis by (intro exI[of _ "[]"]) simp
  next
    case (Some r)
    from stripAny_SomeD[OF Some] obtain e where
      e: "e \<in> set T" "prefix e s" "r = drop (length e) s" by blast
    then have s: "s = e @ r" by (metis append_take_drop_id prefix_def append_eq_conv_conj)
    from stripAny_shorter[OF ne Some] Suc.prems have "length r \<le> n" by simp
    from Suc.IH[OF this] obtain rs where
      rs: "set rs \<subseteq> set T" "r = concat rs @ trimFront T n r" "stripAny T (trimFront T n r) = None"
      by blast
    from rs(2) s have "s = concat (e # rs) @ trimFront T n r" by simp
    with e(1) rs(1,3) Some show ?thesis
      by (intro exI[of _ "e # rs"]) simp
  qed
qed

lemma stripAny_append_None:
  assumes ne: "[] \<notin> set T"
    and lead: "\<And>e e'. e \<in> set T \<Longrightarrow> e' \<in> set T \<Longrightarrow> hd e' \<notin> set (tl e)"
    and r: "stripAny T r = None" "r \<noteq> []"
    and rs: "set rs \<subseteq> set T"
  shows "stripAny T (r @ concat rs) = None"
  unfolding stripAny_None_iff
proof (intro ballI notI)
  fix e assume e: "e \<in> set T" and p: "prefix e (r @ concat rs)"
  from r(1) e have np: "\<not> prefix e r" by (simp add: stripAny_None_iff)
  with p obtain us where us: "e = r @ us" "prefix us (concat rs)"
    by (auto simp: prefix_append)
  with np have usne: "us \<noteq> []" by auto
  have xne: "concat rs \<noteq> []"
  proof
    assume "concat rs = []"
    with us(2) usne show False by simp
  qed
  from us(2) usne have hd: "hd us = hd (concat rs)" by (auto simp: prefix_def)
  from xne obtain e' rs' where rs': "rs = e' # rs'" by (cases rs) auto
  with rs ne have e': "e' \<in> set T" "e' \<noteq> []" by auto
  with rs' have "hd (concat rs) = hd e'" by simp
  with hd have "hd us = hd e'" by simp
  moreover from us(1) r(2) usne have "hd us \<in> set (tl e)" by (cases r) auto
  ultimately show False using lead[OF e e'(1)] by simp
qed


text \<open>
  Facts of the table of white-space runes: no entry is empty, none is a prefix or a suffix
  of another, no byte after the first of an entry starts an entry, and none holds a
  closing brace.
\<close>

lemma spaceRunes_table:
  "list_all (\<lambda>e. e \<noteq> [] \<and> CHR ''}'' \<notin> set e \<and>
      list_all (\<lambda>e'. (prefix e e' \<longrightarrow> e = e') \<and> (prefix (rev e) (rev e') \<longrightarrow> e = e') \<and>
                     hd e' \<notin> set (tl e)) spaceRunes) spaceRunes"
  by code_simp

lemma spaceRunes_facts:
  assumes "e \<in> set spaceRunes"
  shows "e \<noteq> []" "CHR ''}'' \<notin> set e"
    "\<And>e'. e' \<in> set spaceRunes \<Longrightarrow> prefix e e' \<Longrightarrow> e = e'"
    "\<And>e'. e' \<in> set spaceRunes \<Longrightarrow> prefix (rev e) (rev e') \<Longrightarrow> e = e'"
    "\<And>e'. e' \<in> set spaceRunes \<Longrightarrow> hd e' \<notin> set (tl e)"
  using spaceRunes_table assms unfolding list_all_iff by blast+

lemma TrimLeftSpace_spaces:
  "set rs \<subseteq> set spaceRunes \<Longrightarrow> TrimLeftSpace (concat rs @ x) = TrimLeftSpace x"
  unfolding TrimLeftSpace_def
  by (rule trimFront_concat) (use spaceRunes_facts in blast)+

lemma TrimRightSpace_spaces:
  assumes "set rs \<subseteq> set spaceRunes"
  shows "TrimRightSpace (x @ concat rs) = TrimRightSpace x"
proof -
  let ?R = "map rev spaceRunes"
  have ne: "[] \<notin> set ?R" using spaceRunes_facts(1) by auto
  have pf: "\<And>e e'. e \<in> set ?R \<Longrightarrow> e' \<in> set ?R \<Longrightarrow> prefix e e' \<Longrightarrow> e = e'"
    using spaceRunes_facts(4) by auto
  have sub: "set (map rev (rev rs)) \<subseteq> set ?R" using assms by auto
  have "rev (x @ concat rs) = concat (map rev (rev rs)) @ rev x"
    by (simp add: rev_concat)
  moreover have "length (x @ concat rs) = length (concat (map rev (rev rs)) @ rev x)"
    by (metis calculation length_rev)
  ultimately have "TrimRightSpace (x @ concat rs)
      = rev (trimFront ?R (length (concat (map rev (rev rs)) @ rev x)) (concat (map rev (rev rs)) @ rev x))"
    by (simp only: TrimRightSpace_def)
  also have "\<dots> = rev (trimFront ?R (length (rev x)) (rev x))"
    by (simp only: trimFront_concat[OF ne pf sub, of "rev x"])
  finally show ?thesis by (simp add: TrimRightSpace_def)
qed

lemma TrimSpace_spaces:
  assumes "set rs1 \<subseteq> set spaceRunes" "set rs2 \<subseteq> set spaceRunes"
  shows "TrimSpace (concat rs1 @ k @ concat rs2) = TrimSpace k"
proof -
  have ne: "[] \<notin> set spaceRunes" using spaceRunes_facts(1) by blast
  define r where "r = TrimLeftSpace k"
  from trimFront_decomp[OF ne, of k "length k"] obtain rs where
    rs: "set rs \<subseteq> set spaceRunes" "k = concat rs @ r" "stripAny spaceRunes r = None"
    unfolding r_def TrimLeftSpace_def by blast
  have "TrimLeftSpace (concat rs1 @ k @ concat rs2) = TrimLeftSpace (k @ concat rs2)"
    using assms(1) by (rule TrimLeftSpace_spaces)
  also have "\<dots> = TrimLeftSpace (concat rs @ (r @ concat rs2))"
    using rs(2) by simp
  also have "\<dots> = TrimLeftSpace (r @ concat rs2)"
    using rs(1) by (rule TrimLeftSpace_spaces)
  finally have left: "TrimLeftSpace (concat rs1 @ k @ concat rs2) = TrimLeftSpace (r @ concat rs2)" .
  show ?thesis
  proof (cases "r = []")
    case True
    have "TrimLeftSpace (concat rs2 @ []) = TrimLeftSpace []"
      using assms(2) by (rule TrimLeftSpace_spaces)
    then have "TrimLeftSpace (r @ concat rs2) = []"
      using True by (simp add: TrimLeftSpace_def)
    with left True show ?thesis by (simp add: TrimSpace_def r_def)
  next
    case False
    have "stripAny spaceRunes (r @ concat rs2) = None"
      using ne spaceRunes_facts(5) rs(3) False assms(2) by (rule stripAny_append_None)
    moreover from False obtain n where "length (r @ concat rs2) = Suc n"
      by (cases r) auto
    ultimately have "TrimLeftSpace (r @ concat rs2) = r @ concat rs2"
      by (simp add: TrimLeftSpace_def)
    with left have "TrimSpace (concat rs1 @ k @ concat rs2) = TrimRightSpace (r @ concat rs2)"
      by (simp add: TrimSpace_def)
    also have "\<dots> = TrimRightSpace r" using assms(2) by (rule TrimRightSpace_spaces)
    finally show ?thesis by (simp add: TrimSpace_def r_def)
  qed
qed


lemma trimFront_None: "stripAny T s = None \<Longrightarrow> trimFront T n s = s"
  by (cases n) simp_all

lemma TrimSpace_id:
  "stripAny spaceRunes k = None \<Longrightarrow> stripAny (map rev spaceRunes) (rev k) = None \<Longrightarrow>
   TrimSpace k = k"
  by (simp add: TrimSpace_def TrimLeftSpace_def TrimRightSpace_def trimFront_None)

lemma hasToken_Cons:
  "hasToken t (c # s) \<longleftrightarrow> take (length t) (c # s) = t \<or> hasToken t s"
proof -
  have "Index (c # s) t = - 1 \<longleftrightarrow> take (length t) (c # s) \<noteq> t \<and> Index s t = - 1"
    using Index_ge[of s t] by (auto simp: Let_def)
  then show ?thesis unfolding Index_hasToken by blast
qed

lemma hasToken_skip:
  "x \<notin> set w \<Longrightarrow> hasToken (x # t) (w @ s) \<longleftrightarrow> hasToken (x # t) s"
  by (induction w) (auto simp: hasToken_Cons)

lemma closeFree_spaces_right:
  "CHR ''}'' \<notin> set w \<Longrightarrow> \<not> hasToken ''}}'' (k @ ''}'') \<Longrightarrow> \<not> hasToken ''}}'' (k @ w @ ''}'')"
proof (induction k)
  case Nil
  have "\<not> hasToken ''}}'' ''}''" by (simp add: hasToken_def occursAt_def)
  with Nil(1) show ?case by (simp add: hasToken_skip)
next
  case (Cons c k)
  from Cons.prems(2) have nk: "\<not> hasToken ''}}'' (k @ ''}'')"
    and nt: "take 2 (c # k @ ''}'') \<noteq> ''}}''"
    by (simp_all add: hasToken_Cons)
  from Cons.IH[OF Cons.prems(1) nk] have ih: "\<not> hasToken ''}}'' (k @ w @ ''}'')" .
  have "take 2 (c # k @ w @ ''}'') \<noteq> ''}}''"
    using nt Cons.prems(1) by (cases k; cases w) (auto simp: numeral_2_eq_2)
  with ih show ?case by (simp add: hasToken_Cons)
qed

lemma closeFree_spaces:
  assumes "set ws1 \<subseteq> set spaceRunes" "set ws2 \<subseteq> set spaceRunes"
    and "\<not> hasToken ''}}'' (key @ ''}'')"
  shows "\<not> hasToken ''}}'' ((concat ws1 @ key @ concat ws2) @ ''}'')"
proof -
  have 1: "CHR ''}'' \<notin> set (concat ws1)" and 2: "CHR ''}'' \<notin> set (concat ws2)"
    using assms(1,2) spaceRunes_facts(2) by auto
  from closeFree_spaces_right[OF 2 assms(3)]
  have "\<not> hasToken ''}}'' (key @ concat ws2 @ ''}'')" .
  with hasToken_skip[OF 1, of "''}''" "key @ concat ws2 @ ''}''"]
  have "\<not> hasToken ''}}'' (concat ws1 @ (key @ concat ws2 @ ''}''))" by simp
  then show ?thesis by simp
qed

section \<open>The properties\<close>

text \<open>
  C1. A well-formed template (every open token has a close token later in the template)
  has a reading: literal text and markers in turn. For every reading of it and every
  context that holds every key the markers refer to, ParseTemplate followed by
  Interpreter gives a string whose length is the total length of the literal text of the
  template plus the total length of the formatted values of the keys.
\<close>

theorem render_length:
  "wellFormed tmpl \<Longrightarrow>
   (\<exists>ms tail. reading tmpl ms tail) \<and>
   (\<forall>ms tail. reading tmpl ms tail \<and> set (referencedKeys ms) \<subseteq> dom (Data c) \<longrightarrow>
      (\<exists>t out. ParseTemplate tmpl = Some (Inr t) \<and>
         Template_Interpreter t (Some c) = Inr out \<and>
         length out = literalLength ms tail + valueLength c ms))"
proof (intro conjI allI impI)
  assume "wellFormed tmpl"
  then show "\<exists>ms tail. reading tmpl ms tail" by (rule wellFormed_reading)
next
  fix ms tail
  assume a: "reading tmpl ms tail \<and> set (referencedKeys ms) \<subseteq> dom (Data c)"
  then have sc: "scan tmpl = nodesOf ms @ [TextNode tail]"
    by (simp add: reading_def scan_build)
  from a have "length (concat (map (nodeText c) (nodesOf ms @ [TextNode tail])))
     = literalLength ms tail + valueLength c ms"
    by (simp only: length_nodesOf)
  then show "\<exists>t out. ParseTemplate tmpl = Some (Inr t) \<and>
         Template_Interpreter t (Some c) = Inr out \<and>
         length out = literalLength ms tail + valueLength c ms"
    by (simp only: ParseTemplate_scan Template_Interpreter_Some sc) simp
qed

theorem render_length_witness:
  "wellFormed ''Hi {{ n }}, {{m}}!'' \<and>
   reading ''Hi {{ n }}, {{m}}!'' [(''Hi '', '' n ''), ('', '', ''m'')] ''!'' \<and>
   set (referencedKeys [(''Hi '', '' n ''), ('', '', ''m'')])
     \<subseteq> dom (Data \<lparr>Data = [''n'' \<mapsto> AString ''Bob'', ''m'' \<mapsto> AInt 42]\<rparr>) \<and>
   (\<exists>t out. ParseTemplate ''Hi {{ n }}, {{m}}!'' = Some (Inr t) \<and>
      Template_Interpreter t (Some \<lparr>Data = [''n'' \<mapsto> AString ''Bob'', ''m'' \<mapsto> AInt 42]\<rparr>) = Inr out \<and>
      length out = literalLength [(''Hi '', '' n ''), ('', '', ''m'')] ''!''
        + valueLength \<lparr>Data = [''n'' \<mapsto> AString ''Bob'', ''m'' \<mapsto> AInt 42]\<rparr>
            [(''Hi '', '' n ''), ('', '', ''m'')])"
proof -
  let ?c = "\<lparr>Data = [''n'' \<mapsto> AString ''Bob'', ''m'' \<mapsto> AInt 42]\<rparr>"
  have h: "wellFormed ''Hi {{ n }}, {{m}}!''" by code_simp
  have r: "reading ''Hi {{ n }}, {{m}}!'' [(''Hi '', '' n ''), ('', '', ''m'')] ''!''"
    by code_simp
  have k1: "TrimSpace '' n '' = ''n''" by code_simp
  have k2: "TrimSpace ''m'' = ''m''" by code_simp
  have k: "set (referencedKeys [(''Hi '', '' n ''), ('', '', ''m'')]) \<subseteq> dom (Data ?c)"
    by (simp add: k1 k2)
  from render_length[OF h, of ?c] h r k show ?thesis by blast
qed

text \<open>
  C2. The template \<open>Hello, {{ Name }}! You are {{Age}} years old.\<close>, parsed and then
  rendered with the context that maps \<open>Name\<close> to the string \<open>fengfeng\<close> and \<open>Age\<close>
  to the integer 21, gives exactly \<open>Hello, fengfeng! You are 21 years old.\<close>: the
  integer is written in base 10.
\<close>

theorem main_scenario:
  "render ''Hello, {{ Name }}! You are {{Age}} years old.''
     (Some \<lparr>Data = [''Name'' \<mapsto> AString ''fengfeng'', ''Age'' \<mapsto> AInt 21]\<rparr>)
   = Some (Inr ''Hello, fengfeng! You are 21 years old.'')"
  by code_simp

text \<open>
  C3. A template in which the open token \<open>{{\<close> does not occur parses to exactly one
  literal node that holds the whole input, and renders to the input unchanged, whatever
  the context is (a nil context pointer included). The empty template parses to one
  empty literal node.
\<close>

theorem no_marker_identity:
  "\<not> hasToken ''{{'' tmpl \<Longrightarrow>
   ParseTemplate tmpl = Some (Inr \<lparr>tree = [TextNode tmpl]\<rparr>) \<and>
   render tmpl ctx = Some (Inr tmpl) \<and>
   ParseTemplate [] = Some (Inr \<lparr>tree = [TextNode []]\<rparr>)"
proof -
  assume "\<not> hasToken ''{{'' tmpl"
  then have "Index tmpl ''{{'' = - 1" by (simp add: Index_hasToken)
  then have p: "ParseTemplate tmpl = Some (Inr \<lparr>tree = [TextNode tmpl]\<rparr>)"
    by (simp add: ParseTemplate_scan scan_no_open)
  have r: "render tmpl ctx = Some (Inr tmpl)"
    by (simp add: render_def p Template_Interpreter_def TextNode_Interpreter_def)
  have e: "ParseTemplate [] = Some (Inr \<lparr>tree = [TextNode []]\<rparr>)"
    by (simp add: ParseTemplate_scan scan_no_open)
  from p r e show ?thesis by simp
qed

theorem no_marker_identity_witness:
  "\<not> hasToken ''{{'' ''a { plain } text }}'' \<and>
   ParseTemplate ''a { plain } text }}'' = Some (Inr \<lparr>tree = [TextNode ''a { plain } text }}'']\<rparr>) \<and>
   render ''a { plain } text }}'' (Some \<lparr>Data = [''plain'' \<mapsto> AInt 1]\<rparr>)
     = Some (Inr ''a { plain } text }}'')"
proof -
  have h: "\<not> hasToken ''{{'' ''a { plain } text }}''" by code_simp
  from no_marker_identity[OF h, of "Some \<lparr>Data = [''plain'' \<mapsto> AInt 1]\<rparr>"] h
  show ?thesis by simp
qed

text \<open>
  C4. A reference node whose key the context does not hold gives the empty string and
  no panic: a template renders with such a node as it renders without it. In particular
  \<open>{{x}}\<close> renders to the empty string in the empty context.
\<close>

theorem missing_key_empty:
  "Data c key = None \<Longrightarrow>
   Node_Interpreter (VarNode key) (Some c) = Inr [] \<and>
   (\<exists>out. Template_Interpreter \<lparr>tree = pre @ VarNode key # post\<rparr> (Some c) = Inr out \<and>
          Template_Interpreter \<lparr>tree = pre @ post\<rparr> (Some c) = Inr out) \<and>
   render ''{{x}}'' (Some \<lparr>Data = Map.empty\<rparr>) = Some (Inr [])"
proof -
  assume k: "Data c key = None"
  have x: "render ''{{x}}'' (Some \<lparr>Data = Map.empty\<rparr>) = Some (Inr [])" by code_simp
  from k x show ?thesis
    by (simp add: VarNode_Interpreter_def Template_Interpreter_Some)
qed

theorem missing_key_empty_witness:
  "Data \<lparr>Data = [''a'' \<mapsto> AInt 1]\<rparr> ''b'' = None \<and>
   Node_Interpreter (VarNode ''b'') (Some \<lparr>Data = [''a'' \<mapsto> AInt 1]\<rparr>) = Inr [] \<and>
   (\<exists>out. Template_Interpreter \<lparr>tree = [TextNode ''x'', VarNode ''a''] @ VarNode ''b'' # [TextNode ''y'']\<rparr>
            (Some \<lparr>Data = [''a'' \<mapsto> AInt 1]\<rparr>) = Inr out \<and>
          Template_Interpreter \<lparr>tree = [TextNode ''x'', VarNode ''a''] @ [TextNode ''y'']\<rparr>
            (Some \<lparr>Data = [''a'' \<mapsto> AInt 1]\<rparr>) = Inr out)"
proof -
  have h: "Data \<lparr>Data = [''a'' \<mapsto> AInt 1]\<rparr> ''b'' = None" by simp
  from missing_key_empty[OF h, of "[TextNode ''x'', VarNode ''a'']" "[TextNode ''y'']"] h
  show ?thesis by blast
qed

text \<open>
  C5. When some open token of the template has no close token after it, ParseTemplate
  still returns a template and no error. With \<open>p\<close> the position of the first such open
  token, the text before \<open>p\<close> is well-formed, and the tree is made of the nodes of its
  reading: the literals and markers before \<open>p\<close>, and last the literal text that stands
  between the last of these markers and the open token at \<open>p\<close>. Nothing from \<open>p\<close> to
  the end of the input gives a node: the tree is the tree of the text before \<open>p\<close>.
\<close>

theorem unterminated_marker_dropped:
  "\<not> wellFormed tmpl \<Longrightarrow>
   \<exists>p ms tail t. find (unmatchedOpen tmpl) [0..<length tmpl] = Some p \<and>
     reading (take p tmpl) ms tail \<and>
     ParseTemplate tmpl = Some (Inr t) \<and>
     tree t = nodesOf ms @ [TextNode tail] \<and>
     ParseTemplate (take p tmpl) = Some (Inr t) \<and>
     suffix tail (take p tmpl) \<and> wellFormed (take p tmpl)"
proof -
  assume "\<not> wellFormed tmpl"
  then have "find (unmatchedOpen tmpl) [0..<length tmpl] \<noteq> None"
    by (auto simp: wellFormed_def list_ex_iff find_None_iff)
  then obtain p where p: "find (unmatchedOpen tmpl) [0..<length tmpl] = Some p" by blast
  then have u: "unmatchedOpen tmpl p" and first: "\<And>q. q < p \<Longrightarrow> \<not> unmatchedOpen tmpl q"
    by (auto simp: find_Some_iff)
  note f = first_unmatched[OF u first]
  from wellFormed_reading[OF f(1)] obtain ms tail where r: "reading (take p tmpl) ms tail"
    by blast
  then have b: "take p tmpl = build ms tail" and sc: "scan (take p tmpl) = nodesOf ms @ [TextNode tail]"
    by (simp_all add: reading_def scan_build)
  have sf: "suffix tail (take p tmpl)" unfolding b by (rule suffix_build)
  have "tmpl = take p tmpl @ ''{{'' @ drop (p + 2) tmpl"
    using f(3) by (metis append_take_drop_id)
  then have "scan tmpl = scan (take p tmpl @ ''{{'' @ drop (p + 2) tmpl)" by simp
  also have "\<dots> = scan (take p tmpl)" using f(1,2,4) by (rule scan_unterminated)
  finally have eq: "scan tmpl = scan (take p tmpl)" .
  from p r eq sc sf f(1) show ?thesis
    by (auto simp: ParseTemplate_scan)
qed

theorem unterminated_marker_dropped_witness:
  "\<not> wellFormed ''a{{b}}c{{d{{e'' \<and>
   find (unmatchedOpen ''a{{b}}c{{d{{e'') [0..<length ''a{{b}}c{{d{{e''] = Some 7 \<and>
   ParseTemplate ''a{{b}}c{{d{{e'' = Some (Inr \<lparr>tree = [TextNode ''a'', VarNode ''b'', TextNode ''c'']\<rparr>) \<and>
   (\<exists>ms tail t. reading (take 7 ''a{{b}}c{{d{{e'') ms tail \<and>
     ParseTemplate ''a{{b}}c{{d{{e'' = Some (Inr t) \<and>
     tree t = nodesOf ms @ [TextNode tail] \<and>
     ParseTemplate (take 7 ''a{{b}}c{{d{{e'') = Some (Inr t) \<and>
     suffix tail (take 7 ''a{{b}}c{{d{{e'') \<and> wellFormed (take 7 ''a{{b}}c{{d{{e''))"
proof -
  have h: "\<not> wellFormed ''a{{b}}c{{d{{e''" by code_simp
  have p: "find (unmatchedOpen ''a{{b}}c{{d{{e'') [0..<length ''a{{b}}c{{d{{e''] = Some 7"
    by code_simp
  have t: "ParseTemplate ''a{{b}}c{{d{{e''
           = Some (Inr \<lparr>tree = [TextNode ''a'', VarNode ''b'', TextNode ''c'']\<rparr>)"
    by code_simp
  from unterminated_marker_dropped[OF h] p h t show ?thesis by auto
qed

text \<open>
  C6, as the code has it. The marker ends at the first close token after its open token,
  so a key that ends in a closing brace is held only by a marker with white space after
  it: \<open>{{ a} }}\<close> refers to the key \<open>a}\<close>, and without the white space \<open>{{a}}}\<close>
  refers to the key \<open>a\<close> and is followed by the literal \<open>}\<close>. In the empty context the
  first renders to the empty string and the second to \<open>}\<close>.
\<close>

theorem whitespace_in_marker_counterexample:
  "ParseTemplate ''{{ a} }}'' = Some (Inr \<lparr>tree = [TextNode [], VarNode ''a}'', TextNode []]\<rparr>) \<and>
   ParseTemplate ''{{a}}}'' = Some (Inr \<lparr>tree = [TextNode [], VarNode ''a'', TextNode ''}'']\<rparr>) \<and>
   render ''{{ a} }}'' (Some \<lparr>Data = Map.empty\<rparr>) = Some (Inr []) \<and>
   render ''{{a}}}'' (Some \<lparr>Data = Map.empty\<rparr>) = Some (Inr ''}'')"
  by code_simp

text \<open>
  C6, amended. White space around the key inside a marker does not change the output,
  for a key that its marker can hold without white space. Take a key
  such that \<open>{{key}}\<close> is a marker that holds it (the first close token of the key
  followed by \<open>}}\<close> is that \<open>}}\<close>), white space \<open>ws1\<close> and \<open>ws2\<close> (white-space
  runes in UTF-8), well-formed text before the marker that does not end in an open brace,
  and any text after it. With and without the white space the template renders the same,
  in every context. The reference node holds the key with its own leading and trailing
  white space removed; a key that has none is stored as it is.
\<close>

theorem whitespace_in_marker:
  assumes "set ws1 \<subseteq> set spaceRunes" "set ws2 \<subseteq> set spaceRunes"
    and "\<not> hasToken ''}}'' (key @ ''}'')"
    and "wellFormed pre" "\<not> suffix ''{'' pre"
  shows "render (pre @ ''{{'' @ concat ws1 @ key @ concat ws2 @ ''}}'' @ post) ctx
           = render (pre @ ''{{'' @ key @ ''}}'' @ post) ctx \<and>
         (\<exists>t tp tq.
            ParseTemplate (pre @ ''{{'' @ concat ws1 @ key @ concat ws2 @ ''}}'' @ post) = Some (Inr t) \<and>
            ParseTemplate pre = Some (Inr tp) \<and> ParseTemplate post = Some (Inr tq) \<and>
            tree t = tree tp @ VarNode (TrimSpace key) # tree tq) \<and>
         (stripAny spaceRunes key = None \<and> stripAny (map rev spaceRunes) (rev key) = None
            \<longrightarrow> TrimSpace key = key)"
proof -
  let ?inner = "concat ws1 @ key @ concat ws2"
  have cf: "\<not> hasToken ''}}'' (?inner @ ''}'')" using assms(1-3) by (rule closeFree_spaces)
  have "scan (pre @ ''{{'' @ ?inner @ ''}}'' @ post)
        = scan pre @ VarNode (TrimSpace ?inner) # scan post"
    using assms(4,5) cf by (rule scan_marker_append)
  then have a: "scan (pre @ ''{{'' @ concat ws1 @ key @ concat ws2 @ ''}}'' @ post)
        = scan pre @ VarNode (TrimSpace key) # scan post"
    by (simp add: TrimSpace_spaces[OF assms(1,2)])
  have b: "scan (pre @ ''{{'' @ key @ ''}}'' @ post)
        = scan pre @ VarNode (TrimSpace key) # scan post"
    using assms(4,5,3) by (rule scan_marker_append)
  have r: "render (pre @ ''{{'' @ concat ws1 @ key @ concat ws2 @ ''}}'' @ post) ctx
           = render (pre @ ''{{'' @ key @ ''}}'' @ post) ctx"
    by (simp only: render_def ParseTemplate_scan a b)
  from r a show ?thesis
    by (simp add: ParseTemplate_scan TrimSpace_id)
qed

theorem whitespace_in_marker_witness:
  "set [[CHR 0x20], [CHR 0x09]] \<subseteq> set spaceRunes \<and>
   set [[CHR 0xC2, CHR 0xA0], [CHR 0x0A]] \<subseteq> set spaceRunes \<and>
   \<not> hasToken ''}}'' (''name'' @ ''}'') \<and> wellFormed ''Hi '' \<and> \<not> suffix ''{'' ''Hi '' \<and>
   render (''Hi '' @ ''{{'' @ concat [[CHR 0x20], [CHR 0x09]] @ ''name''
             @ concat [[CHR 0xC2, CHR 0xA0], [CHR 0x0A]] @ ''}}'' @ ''!'')
          (Some \<lparr>Data = [''name'' \<mapsto> AString ''a'']\<rparr>)
     = render (''Hi '' @ ''{{'' @ ''name'' @ ''}}'' @ ''!'') (Some \<lparr>Data = [''name'' \<mapsto> AString ''a'']\<rparr>) \<and>
   (\<exists>t tp tq.
      ParseTemplate (''Hi '' @ ''{{'' @ concat [[CHR 0x20], [CHR 0x09]] @ ''name''
             @ concat [[CHR 0xC2, CHR 0xA0], [CHR 0x0A]] @ ''}}'' @ ''!'') = Some (Inr t) \<and>
      ParseTemplate ''Hi '' = Some (Inr tp) \<and> ParseTemplate ''!'' = Some (Inr tq) \<and>
      tree t = tree tp @ VarNode (TrimSpace ''name'') # tree tq) \<and>
   stripAny spaceRunes ''name'' = None \<and> stripAny (map rev spaceRunes) (rev ''name'') = None \<and>
   TrimSpace ''name'' = ''name''"
proof -
  have h1: "set [[CHR 0x20], [CHR 0x09]] \<subseteq> set spaceRunes" by code_simp
  have h2: "set [[CHR 0xC2, CHR 0xA0], [CHR 0x0A]] \<subseteq> set spaceRunes" by code_simp
  have h3: "\<not> hasToken ''}}'' (''name'' @ ''}'')" by code_simp
  have h4: "wellFormed ''Hi ''" by code_simp
  have h5: "\<not> suffix ''{'' ''Hi ''" by code_simp
  have h6: "stripAny spaceRunes ''name'' = None" by code_simp
  have h7: "stripAny (map rev spaceRunes) (rev ''name'') = None" by code_simp
  from whitespace_in_marker[OF h1 h2 h3 h4 h5, of "''!''" "Some \<lparr>Data = [''name'' \<mapsto> AString ''a'']\<rparr>"]
    h1 h2 h3 h4 h5 h6 h7
  show ?thesis by blast
qed

text \<open>
  C7, as the code has it. A Go map can hold the empty string as a key, so the reference
  node of \<open>{{}}\<close> renders what the context holds under the empty key: the string
  \<open>x\<close> below, not the empty string. And the four bytes \<open>{{}}\<close> inside a marker that is
  already open are part of that marker's key.
\<close>

theorem empty_marker_counterexample:
  "ParseTemplate ''{{}}'' = Some (Inr \<lparr>tree = [TextNode [], VarNode [], TextNode []]\<rparr>) \<and>
   Node_Interpreter (VarNode []) (Some \<lparr>Data = [[] \<mapsto> AString ''x'']\<rparr>) = Inr ''x'' \<and>
   render ''{{}}'' (Some \<lparr>Data = [[] \<mapsto> AString ''x'']\<rparr>) = Some (Inr ''x'') \<and>
   ParseTemplate ''{{a{{}}'' = Some (Inr \<lparr>tree = [TextNode [], VarNode ''a{{'', TextNode []]\<rparr>)"
  by code_simp

text \<open>
  C7, amended. When \<open>{{}}\<close> follows well-formed text that does not end in an open
  brace, the tree holds a reference node with the empty key, between the nodes of the text
  before and the nodes of the text after. That node renders to the empty string when the
  context holds nothing under the empty key, and to the formatted value otherwise.
\<close>

theorem empty_marker:
  assumes "wellFormed pre" "\<not> suffix ''{'' pre"
  shows "\<exists>t tp tq. ParseTemplate (pre @ ''{{}}'' @ post) = Some (Inr t) \<and>
     ParseTemplate pre = Some (Inr tp) \<and> ParseTemplate post = Some (Inr tq) \<and>
     tree t = tree tp @ VarNode [] # tree tq \<and>
     Node_Interpreter (VarNode []) (Some c)
       = Inr (case Data c [] of None \<Rightarrow> [] | Some val \<Rightarrow> Sprintf_v val)"
proof -
  have cf: "\<not> hasToken ''}}'' ([] @ ''}'')" by (simp add: hasToken_def occursAt_def)
  from scan_marker_append[OF assms cf, of post]
  have "scan (pre @ ''{{}}'' @ post) = scan pre @ VarNode [] # scan post"
    by (simp add: TrimSpace_Nil)
  then show ?thesis
    by (simp add: ParseTemplate_scan VarNode_Interpreter_def split: option.splits)
qed

theorem empty_marker_witness:
  "wellFormed ''a{{b}} '' \<and> \<not> suffix ''{'' ''a{{b}} '' \<and>
   (\<exists>t tp tq. ParseTemplate (''a{{b}} '' @ ''{{}}'' @ ''c'') = Some (Inr t) \<and>
     ParseTemplate ''a{{b}} '' = Some (Inr tp) \<and> ParseTemplate ''c'' = Some (Inr tq) \<and>
     tree t = tree tp @ VarNode [] # tree tq \<and>
     Node_Interpreter (VarNode []) (Some \<lparr>Data = [''b'' \<mapsto> AInt 3]\<rparr>) = Inr [])"
proof -
  have h1: "wellFormed ''a{{b}} ''" by code_simp
  have h2: "\<not> suffix ''{'' ''a{{b}} ''" by code_simp
  have h3: "Data \<lparr>Data = [''b'' \<mapsto> AInt 3]\<rparr> [] = None" by simp
  from empty_marker[OF h1 h2, of "''c''" "\<lparr>Data = [''b'' \<mapsto> AInt 3]\<rparr>"]
  obtain t tp tq where
    "ParseTemplate (''a{{b}} '' @ ''{{}}'' @ ''c'') = Some (Inr t)"
    "ParseTemplate ''a{{b}} '' = Some (Inr tp)" "ParseTemplate ''c'' = Some (Inr tq)"
    "tree t = tree tp @ VarNode [] # tree tq"
    "Node_Interpreter (VarNode []) (Some \<lparr>Data = [''b'' \<mapsto> AInt 3]\<rparr>)
       = Inr (case Data \<lparr>Data = [''b'' \<mapsto> AInt 3]\<rparr> [] of None \<Rightarrow> [] | Some val \<Rightarrow> Sprintf_v val)"
    by blast
  with h1 h2 h3 show ?thesis by (simp only: option.case) blast
qed

text \<open>
  C8. ParseTemplate returns for every template. A pass of the loop either leaves it (no
  open token, or no close token), or goes round again; from a cursor inside the template
  it then moves the cursor at least four bytes on (past the close token) and keeps it
  inside the template. So the passes that go round again are at most
  \<open>length tmpl div 4\<close>, which is at most the length of the input, and the pass after
  them leaves the loop: run with a bound of \<open>length tmpl div 4 + 1\<close> passes, the
  loop returns the same tree.
\<close>

theorem parse_terminates:
  "(\<exists>t. ParseTemplate tmpl = Some (Inr t) \<and>
        parsePasses (Suc (length tmpl div 4)) tmpl (0, []) = Some (Inr (tree t))) \<and>
   (0 \<le> i \<and> i \<le> int (length tmpl) \<longrightarrow>
      (\<forall>i' ns'. loopBody tmpl (i, ns) = Inr (Inl (i', ns')) \<longrightarrow>
         i + 4 \<le> i' \<and> i' \<le> int (length tmpl)))"
proof (intro conjI impI allI)
  have "length tmpl - nat 0 < 4 * Suc (length tmpl div 4)" by simp
  from parsePasses_scan[OF _ _ this, of "[]"]
  show "\<exists>t. ParseTemplate tmpl = Some (Inr t) \<and>
        parsePasses (Suc (length tmpl div 4)) tmpl (0, []) = Some (Inr (tree t))"
    by (simp add: ParseTemplate_scan)
next
  fix i' ns'
  assume i: "0 \<le> i \<and> i \<le> int (length tmpl)"
    and step: "loopBody tmpl (i, ns) = Inr (Inl (i', ns'))"
  define a where "a = Index (drop (nat i) tmpl) ''{{''"
  define b where "b = Index (drop (nat a) (drop (nat i) tmpl)) ''}}''"
  from i have i1: "0 \<le> i" and i2: "i \<le> int (length tmpl)" by simp_all
  have opn: "a \<noteq> - 1"
    using step loopBody_no_open[OF i1 i2, of ns] by (auto simp: a_def)
  have cls: "b \<noteq> - 1"
    using step loopBody_no_close[OF i1 i2 a_def[symmetric] opn, of ns] by (auto simp: b_def)
  note m = loopBody_marker[OF i1 i2 a_def[symmetric] opn b_def[symmetric] cls]
  note f = loopBody_facts[OF i1 i2 a_def[symmetric] opn]
  from m(1)[of ns] step have "i' = i + a + b + 2" by simp
  with m(2,3) f(1) show "i + 4 \<le> i'" and "i' \<le> int (length tmpl)" by simp_all
qed

theorem parse_terminates_witness:
  "(\<exists>t. ParseTemplate ''a{{b}}c'' = Some (Inr t) \<and>
        parsePasses (Suc (length ''a{{b}}c'' div 4)) ''a{{b}}c'' (0, []) = Some (Inr (tree t))) \<and>
   (0::int) \<le> 0 \<and> (0::int) \<le> int (length ''a{{b}}c'') \<and>
   loopBody ''a{{b}}c'' (0, []) = Inr (Inl (6, [TextNode ''a'', VarNode ''b''])) \<and>
   (0::int) + 4 \<le> 6 \<and> (6::int) \<le> int (length ''a{{b}}c'')"
proof -
  have step: "loopBody ''a{{b}}c'' (0, []) = Inr (Inl (6, [TextNode ''a'', VarNode ''b'']))"
    by code_simp
  from parse_terminates[of "''a{{b}}c''" 0 "[]"] step
  show ?thesis by simp
qed

text \<open>
  C9. The tree ParseTemplate returns is never empty, starts with a literal node,
  alternates between literal and reference nodes, and ends with a literal node: it does so
  for every template, so also when the scan does not end on an unterminated marker.
\<close>

theorem tree_alternates:
  "\<exists>t. ParseTemplate tmpl = Some (Inr t) \<and> tree t \<noteq> [] \<and> isText (hd (tree t)) \<and>
       alternating (tree t) \<and> isText (last (tree t))"
  using scan_shape[of tmpl] by (simp add: ParseTemplate_scan)

text \<open>
  C10. ParseTemplate never panics and always returns a template. Every pass of the loop
  body from a cursor inside the template takes its slices in bounds: when the open token
  is found at offset \<open>a\<close> and the close token at offset \<open>b\<close> from it, then
  \<open>b\<close> is at least 2, so the bounds \<open>index + a + 2\<close> and \<open>index + a + b\<close>
  of the key slice are in order, and the new cursor \<open>index + a + b + 2\<close> is
  inside the template.
\<close>

theorem parse_never_panics:
  "(\<exists>t. ParseTemplate tmpl = Some (Inr t)) \<and>
   (0 \<le> i \<and> i \<le> int (length tmpl) \<longrightarrow>
      (\<exists>r. loopBody tmpl (i, ns) = Inr r) \<and>
      (\<forall>a b. Index (drop (nat i) tmpl) ''{{'' = a \<and> a \<noteq> - 1 \<and>
             Index (drop (nat (i + a)) tmpl) ''}}'' = b \<and> b \<noteq> - 1 \<longrightarrow>
             0 \<le> a \<and> 2 \<le> b \<and> i + a + 2 \<le> i + a + b \<and> i + a + b + 2 \<le> int (length tmpl)))"
proof (intro conjI impI allI)
  show "\<exists>t. ParseTemplate tmpl = Some (Inr t)" by (simp add: ParseTemplate_scan)
next
  assume i: "0 \<le> i \<and> i \<le> int (length tmpl)"
  then have i1: "0 \<le> i" and i2: "i \<le> int (length tmpl)" by simp_all
  define a where "a = Index (drop (nat i) tmpl) ''{{''"
  define b where "b = Index (drop (nat a) (drop (nat i) tmpl)) ''}}''"
  show "\<exists>r. loopBody tmpl (i, ns) = Inr r"
  proof (cases "a = - 1")
    case True
    then show ?thesis using loopBody_no_open[OF i1 i2, of ns] by (simp add: a_def)
  next
    case opn: False
    show ?thesis
    proof (cases "b = - 1")
      case True
      then show ?thesis
        using loopBody_no_close[OF i1 i2 a_def[symmetric] opn, of ns] by (simp add: b_def)
    next
      case False
      then show ?thesis
        using loopBody_marker(1)[OF i1 i2 a_def[symmetric] opn b_def[symmetric], of ns] by simp
    qed
  qed
next
  fix a b
  assume i: "0 \<le> i \<and> i \<le> int (length tmpl)"
    and ab: "Index (drop (nat i) tmpl) ''{{'' = a \<and> a \<noteq> - 1 \<and>
             Index (drop (nat (i + a)) tmpl) ''}}'' = b \<and> b \<noteq> - 1"
  from i have i1: "0 \<le> i" and i2: "i \<le> int (length tmpl)" by simp_all
  from ab have a: "Index (drop (nat i) tmpl) ''{{'' = a" and opn: "a \<noteq> - 1" by simp_all
  note f = loopBody_facts[OF i1 i2 a opn]
  from ab f(3) have b: "Index (drop (nat a) (drop (nat i) tmpl)) ''}}'' = b" and cls: "b \<noteq> - 1"
    by simp_all
  note m = loopBody_marker[OF i1 i2 a opn b cls]
  from f(1) m(2,3)
  show "0 \<le> a" "2 \<le> b" "i + a + 2 \<le> i + a + b" "i + a + b + 2 \<le> int (length tmpl)"
    by simp_all
qed

theorem parse_never_panics_witness:
  "(\<exists>t. ParseTemplate ''ab{{ k }}'' = Some (Inr t)) \<and>
   (0::int) \<le> 1 \<and> (1::int) \<le> int (length ''ab{{ k }}'') \<and>
   (\<exists>r. loopBody ''ab{{ k }}'' (1, []) = Inr r) \<and>
   Index (drop (nat 1) ''ab{{ k }}'') ''{{'' = 1 \<and>
   Index (drop (nat (1 + 1)) ''ab{{ k }}'') ''}}'' = 5 \<and>
   (1::int) + 1 + 2 \<le> 1 + 1 + 5 \<and> (1::int) + 1 + 5 + 2 \<le> int (length ''ab{{ k }}'')"
proof -
  have a: "Index (drop (nat 1) ''ab{{ k }}'') ''{{'' = 1" by code_simp
  have b: "Index (drop (nat (1 + 1)) ''ab{{ k }}'') ''}}'' = 5" by code_simp
  from parse_never_panics[of "''ab{{ k }}''" 1 "[]"] a b
  show ?thesis by simp
qed

end
